theory Spec2Isabelle
  imports Main
begin

section \<open>Python strings and characters\<close>

text \<open>
  A Python \<^verbatim>\<open>str\<close> is modelled as a \<^typ>\<open>string\<close>: one \<^typ>\<open>char\<close> per
  character, the character being the code point with that number. The model therefore
  covers the code points below 256 (ASCII and Latin-1); the UTF-8 encoding and decoding
  steps of the program are inverse to each other on these and are not modelled.

  \<^verbatim>\<open>str.isalnum\<close> on one character, as CPython's Unicode database classifies the
  code points below 256: the ASCII digits and letters, the Latin-1 letters, the
  ordinal indicators, the micro sign, the superscript digits and the vulgar fractions.
\<close>

definition py_isalnum :: "char \<Rightarrow> bool" where
  "py_isalnum c =
     (let n = (of_char c :: nat) in
        (48 \<le> n \<and> n \<le> 57) \<or> (65 \<le> n \<and> n \<le> 90) \<or> (97 \<le> n \<and> n \<le> 122) \<or>
        n = 170 \<or> n = 178 \<or> n = 179 \<or> n = 181 \<or> n = 185 \<or> n = 186 \<or>
        (188 \<le> n \<and> n \<le> 190) \<or> (192 \<le> n \<and> n \<le> 214) \<or>
        (216 \<le> n \<and> n \<le> 246) \<or> 248 \<le> n)"

text \<open>
  The class \<^verbatim>\<open>\w\<close> of the \<^verbatim>\<open>re\<close> module on a \<^verbatim>\<open>str\<close> pattern: alphanumeric
  or the underscore. \<^verbatim>\<open>\W\<close> is its complement.
\<close>

definition re_word :: "char \<Rightarrow> bool" where
  "re_word c = (py_isalnum c \<or> c = CHR ''_'')"

text \<open>
  \<^verbatim>\<open>re.sub(r"\W+", repl, s)\<close>: scanning from the left, a character of class
  \<^verbatim>\<open>\w\<close> is copied; at a character of class \<^verbatim>\<open>\W\<close> the greedy \<^verbatim>\<open>\W+\<close> matches
  the whole run of such characters, which is replaced by \<open>repl\<close>.
\<close>

function re_sub_nonword :: "string \<Rightarrow> string \<Rightarrow> string" where
  "re_sub_nonword repl [] = []"
| "re_sub_nonword repl (c # cs) =
     (if re_word c then c # re_sub_nonword repl cs
      else repl @ re_sub_nonword repl (dropWhile (\<lambda>x. \<not> re_word x) cs))"
  by pat_completeness auto
termination
  by (relation "measure (\<lambda>(repl, s). length s)")
     (auto simp: le_imp_less_Suc length_dropWhile_le)

text \<open>\<^verbatim>\<open>clean_column_name\<close> (app.py, lines 11-15).\<close>

definition clean_column_name :: "string \<Rightarrow> string" where
  "clean_column_name name = re_sub_nonword ''_'' name"

text \<open>
  The sanitized column name as the specification words it: every maximal run of
  non-alphanumeric characters (the underscore is not alphanumeric) becomes a single
  underscore. This definition follows the specification, not the source; it is what
  \<open>clean_column_name\<close> is compared with.
\<close>

function spec_sanitized_name :: "string \<Rightarrow> string" where
  "spec_sanitized_name [] = []"
| "spec_sanitized_name (c # cs) =
     (if py_isalnum c then c # spec_sanitized_name cs
      else CHR ''_'' # spec_sanitized_name (dropWhile (\<lambda>x. \<not> py_isalnum x) cs))"
  by pat_completeness auto
termination
  by (relation "measure length") (auto simp: le_imp_less_Suc length_dropWhile_le)

section \<open>Cell values and the table\<close>

text \<open>
  A cell of the DataFrame is a scalar. The program looks at a value in two ways only:
  \<^verbatim>\<open>isinstance(value, str)\<close> and \<^verbatim>\<open>str(row[col])\<close> on a row that \<^verbatim>\<open>iterrows\<close> yields
  (an f-string formats these scalars as \<^verbatim>\<open>str\<close> does). A string cell carries its
  string. For any other scalar (a number, a boolean, the missing marker NaN) the string
  that \<^verbatim>\<open>str\<close> returns depends on the frame the row is taken from: \<^verbatim>\<open>iterrows\<close> builds
  a row from the values of all columns, and \<^verbatim>\<open>applymap\<close> infers the column types of
  the frame it returns anew, so the integer 1 of an object column beside a float
  column is shown as \<^verbatim>\<open>1\<close> in a row of the caller's frame and as \<^verbatim>\<open>1.0\<close> in a row of
  the frame that line 31 binds. The type inference of pandas is not modelled: a cell
  \<open>Other d d'\<close> carries both display forms, \<open>d\<close> in a row of the frame it stands in and
  \<open>d'\<close> in a row of the frame that \<^verbatim>\<open>applymap\<close> returns for a function that leaves the
  value as it is.
\<close>

datatype cell = Str string | Other string string

text \<open>\<^verbatim>\<open>str(row[col])\<close> for a cell of a row of the frame.\<close>

fun py_str :: "cell \<Rightarrow> string" where
  "py_str (Str s) = s"
| "py_str (Other d d') = d"

text \<open>
  A label of the index: an integer, or any other value (a string, a float, a date, a
  tuple of a multi-level index), which is represented by its display form.
\<close>

datatype label = IntLabel int | OtherLabel string

text \<open>
  The table: the column labels in order and the rows in order as \<^verbatim>\<open>iterrows\<close> yields
  them, each row with its label in the index and its cells, one per column. Column
  labels are strings. \<^verbatim>\<open>read_csv\<close> and \<^verbatim>\<open>read_excel\<close> number the rows from 0 by default,
  and take the index from the file when its data lines have more fields than its
  header.
\<close>

record dataframe =
  columns :: "string list"
  rows :: "(label \<times> cell list) list"

text \<open>
  The exceptions of the model. \<open>Unmodelled\<close> is not a Python exception: it marks an
  input on which the program leaves the part of pandas and of the XML libraries that
  this theory models, and about which the theory says nothing.
\<close>

datatype py_exn = KeyError string | IndexError | TypeError | ExpatError | ParseError | Unmodelled

text \<open>
  \<^verbatim>\<open>row[key]\<close> on a row of \<^verbatim>\<open>iterrows\<close>: the value under the label, \<^verbatim>\<open>KeyError\<close>
  for a label the row does not have. For a label that occurs more than once pandas
  returns a Series of the values, whose display form is not modelled.
\<close>

definition row_get :: "string list \<Rightarrow> cell list \<Rightarrow> string \<Rightarrow> py_exn + cell" where
  "row_get cols row key =
     (if 1 < length (filter (\<lambda>c. c = key) cols) then Inl Unmodelled
      else case map_of (zip cols row) key of
             None \<Rightarrow> Inl (KeyError key)
           | Some v \<Rightarrow> Inr v)"

text \<open>\<^verbatim>\<open>s.replace(c, r)\<close> for a pattern \<open>c\<close> of one character.\<close>

definition str_replace :: "char \<Rightarrow> string \<Rightarrow> string \<Rightarrow> string" where
  "str_replace c r s = concat (map (\<lambda>x. if x = c then r else [x]) s)"

text \<open>\<^verbatim>\<open>clean_data\<close> (app.py, lines 18-23).\<close>

fun clean_data :: "cell \<Rightarrow> cell" where
  "clean_data (Str s) =
     Str (str_replace (CHR ''>'') ''&gt;''
           (str_replace (CHR ''<'') ''&lt;''
             (str_replace (CHR ''&'') ''&amp;'' s)))"
| "clean_data (Other d d') = Other d d'"

text \<open>
  \<^verbatim>\<open>df.applymap(f)\<close>: a new frame with the same labels, holding the values \<open>f\<close> returns,
  its column types inferred anew: a string stays a string, another scalar takes the
  display form it has in the new frame.
\<close>

fun reinferred :: "cell \<Rightarrow> cell" where
  "reinferred (Str s) = Str s"
| "reinferred (Other d d') = Other d' d'"

definition applymap :: "(cell \<Rightarrow> cell) \<Rightarrow> dataframe \<Rightarrow> dataframe" where
  "applymap f df = df\<lparr>rows := map (\<lambda>(i, row). (i, map (\<lambda>v. reinferred (f v)) row)) (rows df)\<rparr>"

text \<open>\<^verbatim>\<open>html.escape(s)\<close> with its default \<^verbatim>\<open>quote=True\<close>: five replacements in this order.\<close>

definition html_escape :: "string \<Rightarrow> string" where
  "html_escape s =
     str_replace (CHR 0x27) ''&#x27;''
       (str_replace (CHR 0x22) ''&quot;''
         (str_replace (CHR ''>'') ''&gt;''
           (str_replace (CHR ''<'') ''&lt;''
             (str_replace (CHR ''&'') ''&amp;'' s))))"

section \<open>The element tree and its serialization\<close>

text \<open>
  An \<^verbatim>\<open>xml.etree.ElementTree.Element\<close> without attributes: its tag, its text
  (\<^verbatim>\<open>None\<close> or a string) and its children. The program never reads a tail.
\<close>

datatype element = Element (tag: string) (elem_text: "string option") (children: "element list")

text \<open>
  The diagnostics the program sends to the reporting channel: \<^verbatim>\<open>st.error\<close> of line 48
  (column, row label, exception), \<^verbatim>\<open>st.error\<close> of line 56 (exception) and \<^verbatim>\<open>st.write\<close>
  of a text.
\<close>

datatype diag = St_error_cell string label py_exn | St_error_format py_exn | St_write string

text \<open>
  The inner loop of lines 42-49, over the column names still to come: one leaf per
  column, its text the escaped display form of the cell. Within the \<^verbatim>\<open>try\<close> only
  \<^verbatim>\<open>row[col_name]\<close> can raise (\<^verbatim>\<open>str\<close> and \<^verbatim>\<open>html.escape\<close> do not, on scalars); the
  handler then reports the cell and evaluates \<^verbatim>\<open>row[col_name]\<close> again for line 49,
  which raises again and leaves the function.
\<close>

fun leaf_elements ::
  "string list \<Rightarrow> cell list \<Rightarrow> label \<Rightarrow> string list \<Rightarrow> diag list \<times> (py_exn + element list)" where
  "leaf_elements cols row i [] = ([], Inr [])"
| "leaf_elements cols row i (col_name # rest) =
     (case row_get cols row col_name of
        Inl Unmodelled \<Rightarrow> ([], Inl Unmodelled)
      | Inl e \<Rightarrow> ([St_error_cell col_name i e], Inl e)
      | Inr v \<Rightarrow>
          (case leaf_elements cols row i rest of
             (log, Inl e) \<Rightarrow> (log, Inl e)
           | (log, Inr leaves) \<Rightarrow>
               (log, Inr (Element col_name (Some (html_escape (py_str v))) [] # leaves))))"

text \<open>
  The outer loop of lines 37-49, over the pairs of label and row that \<^verbatim>\<open>iterrows\<close> has
  still to yield.
\<close>

fun item_elements ::
  "string list \<Rightarrow> (label \<times> cell list) list \<Rightarrow> diag list \<times> (py_exn + element list)" where
  "item_elements cols [] = ([], Inr [])"
| "item_elements cols ((i, row) # rest) =
     (case leaf_elements cols row i cols of
        (log, Inl e) \<Rightarrow> (log, Inl e)
      | (log, Inr leaves) \<Rightarrow>
          (case item_elements cols rest of
             (log', Inl e) \<Rightarrow> (log @ log', Inl e)
           | (log', Inr items) \<Rightarrow> (log @ log', Inr (Element ''Item'' None leaves # items))))"

text \<open>\<^verbatim>\<open>_escape_cdata\<close> of ElementTree.\<close>

definition escape_cdata :: "string \<Rightarrow> string" where
  "escape_cdata t =
     str_replace (CHR ''>'') ''&gt;''
       (str_replace (CHR ''<'') ''&lt;''
         (str_replace (CHR ''&'') ''&amp;'' t))"

text \<open>
  \<^verbatim>\<open>_serialize_xml\<close> of ElementTree for an element without attributes, namespaces or
  tail (a tag is written as it is unless it starts with a brace, which no tag of the
  program does): the short form \<^verbatim>\<open><tag />\<close> when the text is \<^verbatim>\<open>None\<close> or empty and
  there is no child.
\<close>

fun serialize_xml :: "element \<Rightarrow> string" where
  "serialize_xml (Element tg txt kids) =
     ''<'' @ tg @
     (if (txt \<noteq> None \<and> txt \<noteq> Some []) \<or> kids \<noteq> [] then
        ''>'' @ (case txt of None \<Rightarrow> [] | Some t \<Rightarrow> escape_cdata t) @
        concat (map serialize_xml kids) @ ''</'' @ tg @ ''>''
      else '' />'')"

text \<open>
  \<^verbatim>\<open>ET.tostring(root, encoding="utf-8", method="xml")\<close>: the serialization, with no
  declaration for this encoding.
\<close>

definition ET_tostring :: "element \<Rightarrow> string" where
  "ET_tostring root = serialize_xml root"

section \<open>The expat parser\<close>

text \<open>
  Both \<^verbatim>\<open>minidom.parseString\<close> and \<^verbatim>\<open>ET.parse\<close> run expat, which checks that the
  document is well-formed and reports start tags, end tags and character data to a
  builder. The model covers documents made of the declaration that \<^verbatim>\<open>toprettyxml\<close>
  writes, tags without attributes and character data with the five predefined
  entities; on such a document it yields the events, or \<open>NotWellFormed\<close> where expat
  raises an error (whose message is not modelled). On anything else (an attribute, a
  comment, a processing instruction, a character reference, a colon in a name, another
  declaration) it yields \<open>Outside\<close>.
\<close>

datatype scan_err = NotWellFormed | Outside

datatype xml_event = StartElement string | EndElement string | CharacterData string

text \<open>The character classes of XML 1.0 as expat has them, on the code points below 256.\<close>

definition xml_space :: "char \<Rightarrow> bool" where
  "xml_space c = (c = CHR '' '' \<or> c = CHR 0x09 \<or> c = CHR 0x0A \<or> c = CHR 0x0D)"

definition xml_char :: "char \<Rightarrow> bool" where
  "xml_char c = (let n = (of_char c :: nat) in n = 9 \<or> n = 10 \<or> n = 13 \<or> 32 \<le> n)"

definition name_start_char :: "char \<Rightarrow> bool" where
  "name_start_char c =
     (let n = (of_char c :: nat) in
        (65 \<le> n \<and> n \<le> 90) \<or> n = 95 \<or> (97 \<le> n \<and> n \<le> 122) \<or>
        (192 \<le> n \<and> n \<le> 214) \<or> (216 \<le> n \<and> n \<le> 246) \<or> 248 \<le> n)"

definition name_char :: "char \<Rightarrow> bool" where
  "name_char c =
     (let n = (of_char c :: nat) in
        name_start_char c \<or> (48 \<le> n \<and> n \<le> 57) \<or> n = 45 \<or> n = 46 \<or> n = 183)"

text \<open>
  First the input is cut into markup (what stands between \<^verbatim>\<open><\<close> and the next \<^verbatim>\<open>>\<close>)
  and the runs of characters between markup. \<open>Unclosed\<close>: the input ends inside markup.
\<close>

datatype segment = Markup string | Chars string | Unclosed

datatype lex_mode = InChars string | InMarkup string

fun lex_xml :: "lex_mode \<Rightarrow> string \<Rightarrow> segment list" where
  "lex_xml (InChars acc) [] = (if acc = [] then [] else [Chars acc])"
| "lex_xml (InChars acc) (c # cs) =
     (if c = CHR ''<'' then (if acc = [] then [] else [Chars acc]) @ lex_xml (InMarkup []) cs
      else lex_xml (InChars (acc @ [c])) cs)"
| "lex_xml (InMarkup acc) [] = [Unclosed]"
| "lex_xml (InMarkup acc) (c # cs) =
     (if c = CHR ''>'' then Markup acc # lex_xml (InChars []) cs
      else lex_xml (InMarkup (acc @ [c])) cs)"

text \<open>
  A tag: \<^verbatim>\<open><name>\<close>, \<^verbatim>\<open></name>\<close> or \<^verbatim>\<open><name/>\<close>, with white space allowed after the
  name. A name starts with a name-start character and goes on with name characters.
\<close>

datatype tag_kind = STag string | ETag string | EmptyTag string

definition classify_tag :: "string \<Rightarrow> scan_err + tag_kind" where
  "classify_tag m =
     (case m of
        [] \<Rightarrow> Inl NotWellFormed
      | c # cs \<Rightarrow>
          if c = CHR ''?'' \<or> c = CHR ''!'' then Inl Outside
          else if c = CHR ''/'' then
            (let nm = takeWhile name_char cs; r = dropWhile name_char cs in
             if nm = [] \<or> \<not> name_start_char (hd nm) then Inl NotWellFormed
             else if r \<noteq> [] \<and> hd r = CHR '':'' then Inl Outside
             else if list_all xml_space r then Inr (ETag nm)
             else Inl NotWellFormed)
          else
            (let nm = takeWhile name_char m; r = dropWhile name_char m;
                 a = dropWhile xml_space r in
             if c = CHR '':'' then Inl Outside
             else if nm = [] \<or> \<not> name_start_char (hd nm) then Inl NotWellFormed
             else if a = [] then Inr (STag nm)
             else if a = ''/'' then Inr (EmptyTag nm)
             else if hd r = CHR '':'' then Inl Outside
             else if r \<noteq> a \<and> (name_start_char (hd a) \<or> hd a = CHR '':'') then Inl Outside
             else Inl NotWellFormed))"

text \<open>
  Character data between tags: the predefined entities are decoded, a line break
  written as CR LF or CR becomes LF, and a character that XML does not allow, a stray
  \<^verbatim>\<open>&\<close>, an unknown entity or the sequence \<^verbatim>\<open>]]>\<close> is an error.
\<close>

function decode_cdata :: "string \<Rightarrow> scan_err + string" where
  "decode_cdata [] = Inr []"
| "decode_cdata (c # cs) =
     (if c = CHR ''&'' then
        (if take 4 cs = ''amp;'' then map_sum id ((#) (CHR ''&'')) (decode_cdata (drop 4 cs))
         else if take 3 cs = ''lt;'' then map_sum id ((#) (CHR ''<'')) (decode_cdata (drop 3 cs))
         else if take 3 cs = ''gt;'' then map_sum id ((#) (CHR ''>'')) (decode_cdata (drop 3 cs))
         else if take 5 cs = ''quot;'' then map_sum id ((#) (CHR 0x22)) (decode_cdata (drop 5 cs))
         else if take 5 cs = ''apos;'' then map_sum id ((#) (CHR 0x27)) (decode_cdata (drop 5 cs))
         else if take 1 cs = ''#'' then Inl Outside
         else Inl NotWellFormed)
      else if c = CHR 0x0D then
        map_sum id ((#) (CHR 0x0A)) (decode_cdata (if take 1 cs = [CHR 0x0A] then drop 1 cs else cs))
      else if c = CHR '']'' \<and> take 2 cs = '']>'' then Inl NotWellFormed
      else if \<not> xml_char c then Inl NotWellFormed
      else map_sum id ((#) c) (decode_cdata cs))"
  by pat_completeness auto
termination
  by (relation "measure length") auto

text \<open>
  The events of a segment list. \<open>seen\<close>: the root element has been opened; \<open>st\<close>: the
  names of the open elements, innermost first. Outside the root element only white
  space may stand, and it is no character data; the root element is the only one at
  top level; an end tag closes the innermost open element; at the end of the input
  the root element has been opened and closed.
\<close>

fun events :: "bool \<Rightarrow> string list \<Rightarrow> segment list \<Rightarrow> scan_err + xml_event list" where
  "events seen st [] = (if seen \<and> st = [] then Inr [] else Inl NotWellFormed)"
| "events seen st (Unclosed # segs) = Inl NotWellFormed"
| "events seen st (Chars t # segs) =
     (if st = [] then
        (if list_all xml_space t then events seen st segs else Inl NotWellFormed)
      else
        (case decode_cdata t of
           Inl e \<Rightarrow> Inl e
         | Inr d \<Rightarrow> map_sum id ((#) (CharacterData d)) (events seen st segs)))"
| "events seen st (Markup m # segs) =
     (case classify_tag m of
        Inl e \<Rightarrow> Inl e
      | Inr (STag n) \<Rightarrow>
          if seen \<and> st = [] then Inl NotWellFormed
          else map_sum id ((#) (StartElement n)) (events True (n # st) segs)
      | Inr (EmptyTag n) \<Rightarrow>
          if seen \<and> st = [] then Inl NotWellFormed
          else map_sum id (\<lambda>evs. StartElement n # EndElement n # evs) (events True st segs)
      | Inr (ETag n) \<Rightarrow>
          (case st of
             [] \<Rightarrow> Inl NotWellFormed
           | open_tag # st' \<Rightarrow>
               if open_tag = n then map_sum id ((#) (EndElement n)) (events True st' segs)
               else Inl NotWellFormed))"

text \<open>The declaration \<^verbatim>\<open><?xml version="1.0" ?>\<close>, which may open the document.\<close>

definition xml_declaration :: string where
  "xml_declaration = ''<?xml version='' @ [CHR 0x22] @ ''1.0'' @ [CHR 0x22] @ '' ?>''"

definition expat_parse :: "string \<Rightarrow> scan_err + xml_event list" where
  "expat_parse s =
     (if take 2 s = ''<?'' then
        (if take (length xml_declaration) s = xml_declaration
         then events False [] (lex_xml (InChars []) (drop (length xml_declaration) s))
         else Inl Outside)
      else events False [] (lex_xml (InChars []) s))"

section \<open>minidom: the document and its pretty printer\<close>

datatype dom_node = DomElement string "dom_node list" | DomText string

text \<open>
  The builder of minidom keeps a stack of the open nodes, the document at the bottom.
  Character data is added to a text node that ends the children of the open node, or
  becomes a new text node.
\<close>

fun append_text :: "dom_node list \<Rightarrow> string \<Rightarrow> dom_node list" where
  "append_text [] d = [DomText d]"
| "append_text [DomText t] d = [DomText (t @ d)]"
| "append_text [DomElement n ks] d = [DomElement n ks, DomText d]"
| "append_text (k # k' # ks) d = k # append_text (k' # ks) d"

fun dom_build :: "(string \<times> dom_node list) list \<Rightarrow> xml_event list \<Rightarrow> dom_node list" where
  "dom_build st [] = (case st of [(_, kids)] \<Rightarrow> kids | _ \<Rightarrow> [])"
| "dom_build st (StartElement n # evs) = dom_build ((n, []) # st) evs"
| "dom_build ((n, kids) # st) (CharacterData d # evs) =
     dom_build ((n, append_text kids d) # st) evs"
| "dom_build ((n, kids) # (p, pkids) # st) (EndElement _ # evs) =
     dom_build ((p, pkids @ [DomElement n kids]) # st) evs"
| "dom_build st (_ # evs) = dom_build st evs"

text \<open>\<^verbatim>\<open>minidom.parseString\<close>: the children of the document node.\<close>

definition minidom_parseString :: "string \<Rightarrow> py_exn + dom_node list" where
  "minidom_parseString s =
     (case expat_parse s of
        Inl NotWellFormed \<Rightarrow> Inl ExpatError
      | Inl Outside \<Rightarrow> Inl Unmodelled
      | Inr evs \<Rightarrow> Inr (dom_build [(''#document'', [])] evs))"

text \<open>\<^verbatim>\<open>_write_data\<close> of minidom.\<close>

definition write_data :: "string \<Rightarrow> string" where
  "write_data d =
     str_replace (CHR ''>'') ''&gt;''
       (str_replace (CHR 0x22) ''&quot;''
         (str_replace (CHR ''<'') ''&lt;''
           (str_replace (CHR ''&'') ''&amp;'' d)))"

text \<open>
  \<^verbatim>\<open>writexml\<close> of a text node and of an element without attributes: an element whose
  only child is a text node is written on one line, the text as it is.
\<close>

fun writexml :: "dom_node \<Rightarrow> string \<Rightarrow> string \<Rightarrow> string \<Rightarrow> string" where
  "writexml (DomText d) indent addindent newl = write_data (indent @ d @ newl)"
| "writexml (DomElement n kids) indent addindent newl =
     indent @ ''<'' @ n @
     (if kids \<noteq> [] then
        ''>'' @
        (case kids of
           [DomText d] \<Rightarrow> write_data d
         | _ \<Rightarrow> newl @ concat (map (\<lambda>k. writexml k (indent @ addindent) addindent newl) kids) @
                indent) @
        ''</'' @ n @ ''>'' @ newl
      else ''/>'' @ newl)"

text \<open>\<^verbatim>\<open>toprettyxml(indent=...)\<close> of the document, with its default line break.\<close>

definition toprettyxml :: "dom_node list \<Rightarrow> string \<Rightarrow> string" where
  "toprettyxml doc indent =
     xml_declaration @ [CHR 0x0A] @ concat (map (\<lambda>n. writexml n [] indent [CHR 0x0A]) doc)"

section \<open>The conversion\<close>

text \<open>
  \<^verbatim>\<open>convert_df_to_pretty_xml\<close> (app.py, lines 26-66). Line 28 assigns the sanitized
  names to the columns of the frame the caller passed, so the function returns that
  frame as it leaves it, the diagnostics it sent, and the buffer or the exception.
  Line 31 binds a new frame with the cleaned values, over which the loops run; the
  caller's values stay.
\<close>

definition convert_df_to_pretty_xml ::
  "dataframe \<Rightarrow> dataframe \<times> diag list \<times> (py_exn + string)" where
  "convert_df_to_pretty_xml df =
     (let df1 = df\<lparr>columns := map clean_column_name (columns df)\<rparr>;
          df2 = applymap clean_data df1
      in case item_elements (columns df2) (rows df2) of
           (log, Inl e) \<Rightarrow> (df1, log, Inl e)
         | (log, Inr items) \<Rightarrow>
             (let root = Element ''Root'' None items;
                  xml_string = ET_tostring root
              in case minidom_parseString xml_string of
                   Inl e \<Rightarrow>
                     (df1,
                      log @ [St_error_format e,
                             St_write ''Problem detected with the following raw XML snippet:'',
                             St_write (take 500 xml_string)],
                      Inl e)
                 | Inr doc \<Rightarrow> (df1, log, Inr (toprettyxml doc ''  ''))))"

section \<open>The round-trip verifier\<close>

text \<open>
  The \<^verbatim>\<open>TreeBuilder\<close> of ElementTree: a stack of the open elements (tag, text, children
  so far) over a holder for the root, the character data collected since the last tag,
  and whether the last tag was an end tag. Data that follows a start tag becomes the
  text of that element; data that follows an end tag would become a tail and is
  dropped here.
\<close>

definition tb_flush ::
  "(string \<times> string option \<times> element list) list \<Rightarrow> string \<Rightarrow> bool \<Rightarrow>
   (string \<times> string option \<times> element list) list" where
  "tb_flush st d after_end =
     (if d \<noteq> [] \<and> \<not> after_end then
        (case st of [] \<Rightarrow> [] | (n, t, ks) # rest \<Rightarrow> (n, Some d, ks) # rest)
      else st)"

fun tree_build ::
  "(string \<times> string option \<times> element list) list \<Rightarrow> string \<Rightarrow> bool \<Rightarrow> xml_event list \<Rightarrow>
   element list" where
  "tree_build st d after_end [] = (case st of [(_, _, ks)] \<Rightarrow> ks | _ \<Rightarrow> [])"
| "tree_build st d after_end (CharacterData x # evs) = tree_build st (d @ x) after_end evs"
| "tree_build st d after_end (StartElement n # evs) =
     tree_build ((n, None, []) # tb_flush st d after_end) [] False evs"
| "tree_build st d after_end (EndElement _ # evs) =
     (case tb_flush st d after_end of
        (n, t, ks) # (p, pt, pks) # rest \<Rightarrow>
          tree_build ((p, pt, pks @ [Element n t ks]) # rest) [] True evs
      | st' \<Rightarrow> tree_build st' [] True evs)"

text \<open>\<^verbatim>\<open>ET.parse(xml_file).getroot()\<close>.\<close>

definition ET_parse :: "string \<Rightarrow> py_exn + element" where
  "ET_parse s =
     (case expat_parse s of
        Inl NotWellFormed \<Rightarrow> Inl ParseError
      | Inl Outside \<Rightarrow> Inl Unmodelled
      | Inr evs \<Rightarrow>
          (case tree_build [(''#root'', None, [])] [] True evs of
             [root] \<Rightarrow> Inr root
           | _ \<Rightarrow> Inl Unmodelled))"

text \<open>\<^verbatim>\<open>root.findall(name)\<close> for a plain tag name: the children with that tag.\<close>

definition findall :: "string \<Rightarrow> element \<Rightarrow> element list" where
  "findall name e = filter (\<lambda>c. tag c = name) (children e)"

text \<open>
  Lines 83-85: the dictionary of a row node, each child assigned in turn. A value is
  the text of a leaf, which may be \<^verbatim>\<open>None\<close>; \<^verbatim>\<open>get\<close> also gives \<^verbatim>\<open>None\<close> for a key that
  is not there.
\<close>

definition xml_row :: "element \<Rightarrow> (string \<rightharpoonup> string option)" where
  "xml_row item = fold (\<lambda>child d. d(tag child \<mapsto> elem_text child)) (children item) Map.empty"

definition dict_get :: "(string \<rightharpoonup> string option) \<Rightarrow> string \<Rightarrow> string option" where
  "dict_get d key = (case d key of None \<Rightarrow> None | Some v \<Rightarrow> v)"

text \<open>\<^verbatim>\<open>str(n)\<close> for an integer, and \<^verbatim>\<open>str\<close> of what \<^verbatim>\<open>get\<close> returned.\<close>

fun str_nat :: "nat \<Rightarrow> string" where
  "str_nat n =
     (if n < 10 then [''0123456789'' ! n]
      else str_nat (n div 10) @ [''0123456789'' ! (n mod 10)])"

declare str_nat.simps [simp del]

definition str_int :: "int \<Rightarrow> string" where
  "str_int n = (if n < 0 then CHR ''-'' # str_nat (nat (- n)) else str_nat (nat n))"

fun str_optional :: "string option \<Rightarrow> string" where
  "str_optional None = ''None''"
| "str_optional (Some t) = t"

text \<open>
  \<^verbatim>\<open>xs[n]\<close> on a Python list for an integer \<open>n\<close>: a negative \<open>n\<close> counts from the end,
  and an \<open>n\<close> outside the list raises \<^verbatim>\<open>IndexError\<close>.
\<close>

definition list_getitem :: "'a list \<Rightarrow> int \<Rightarrow> py_exn + 'a" where
  "list_getitem xs n =
     (if 0 \<le> n \<and> n < int (length xs) then Inr (xs ! nat n)
      else if n < 0 \<and> 0 \<le> n + int (length xs) then Inr (xs ! nat (n + int (length xs)))
      else Inl IndexError)"

text \<open>The message of line 94, for an integer label \<open>n\<close>.\<close>

definition mismatch_message :: "int \<Rightarrow> string \<Rightarrow> cell \<Rightarrow> string option \<Rightarrow> string" where
  "mismatch_message n key v got =
     ''Mismatch found in record '' @ str_int (n + 1) @ '' for column '' @
     [CHR 0x27] @ key @ [CHR 0x27] @ '': '' @ [CHR 0x27] @ py_str v @ [CHR 0x27] @
     '' != '' @ [CHR 0x27] @ str_optional got @ [CHR 0x27]"

text \<open>
  The inner loop of lines 90-95, over the keys still to come, for the row with the
  label \<open>i\<close>: \<open>Some\<close> of the message when the function returns at a mismatch, \<open>None\<close>
  when the loop ends. The left operand \<^verbatim>\<open>str(row[key])\<close> is evaluated before
  \<^verbatim>\<open>xml_data[i]\<close>, which takes the label of the row as the position in the list: it
  raises \<^verbatim>\<open>TypeError\<close> for a label that is not an integer and \<^verbatim>\<open>IndexError\<close> for an
  integer outside the list.
\<close>

fun compare_columns ::
  "string list \<Rightarrow> cell list \<Rightarrow> label \<Rightarrow> (string \<rightharpoonup> string option) list \<Rightarrow> string list \<Rightarrow>
   py_exn + string option" where
  "compare_columns cols row i xml_data [] = Inr None"
| "compare_columns cols row i xml_data (key # keys) =
     (case row_get cols row key of
        Inl e \<Rightarrow> Inl e
      | Inr v \<Rightarrow>
          (case i of
             OtherLabel d \<Rightarrow> Inl TypeError
           | IntLabel n \<Rightarrow>
               (case list_getitem xml_data n of
                  Inl e \<Rightarrow> Inl e
                | Inr found \<Rightarrow>
                    if Some (py_str v) \<noteq> dict_get found key
                    then Inr (Some (mismatch_message n key v (dict_get found key)))
                    else compare_columns cols row i xml_data keys)))"

text \<open>
  The outer loop of lines 89-97, over the pairs of label and row that \<^verbatim>\<open>iterrows\<close> has
  still to yield.
\<close>

fun compare_rows ::
  "string list \<Rightarrow> (string \<rightharpoonup> string option) list \<Rightarrow> (label \<times> cell list) list \<Rightarrow>
   py_exn + bool \<times> string" where
  "compare_rows cols xml_data [] = Inr (True, ''All data has been accurately converted!'')"
| "compare_rows cols xml_data ((i, row) # rest) =
     (case compare_columns cols row i xml_data cols of
        Inl e \<Rightarrow> Inl e
      | Inr (Some msg) \<Rightarrow> Inr (False, msg)
      | Inr None \<Rightarrow> compare_rows cols xml_data rest)"

text \<open>\<^verbatim>\<open>test_conversion_accuracy\<close> (app.py, lines 69-97).\<close>

definition test_conversion_accuracy :: "dataframe \<Rightarrow> string \<Rightarrow> py_exn + bool \<times> string" where
  "test_conversion_accuracy df xml_file =
     (case ET_parse xml_file of
        Inl e \<Rightarrow> Inl e
      | Inr root \<Rightarrow>
          compare_rows (columns df) (map xml_row (findall ''Item'' root)) (rows df))"

text \<open>
  Lines 141 and 152 of \<^verbatim>\<open>main\<close>: the conversion, then the verifier on the same frame
  (with the columns as the conversion left them) and the buffer.
\<close>

definition convert_then_test :: "dataframe \<Rightarrow> py_exn + bool \<times> string" where
  "convert_then_test df =
     (case convert_df_to_pretty_xml df of
        (df', log, Inl e) \<Rightarrow> Inl e
      | (df', log, Inr xml_file) \<Rightarrow> test_conversion_accuracy df' xml_file)"

section \<open>Notions used in the statements\<close>

text \<open>
  The end-of-line handling of XML on a text: CR LF and a CR on its own become LF.
\<close>

function newline_normalized :: "string \<Rightarrow> string" where
  "newline_normalized [] = []"
| "newline_normalized (c # cs) =
     (if c = CHR 0x0D
      then CHR 0x0A # newline_normalized (if take 1 cs = [CHR 0x0A] then drop 1 cs else cs)
      else c # newline_normalized cs)"
  by pat_completeness auto
termination
  by (relation "measure length") auto

text \<open>A name of XML: a name-start character followed by name characters.\<close>

definition xml_name :: "string \<Rightarrow> bool" where
  "xml_name n = (n \<noteq> [] \<and> name_start_char (hd n) \<and> list_all name_char n)"

section \<open>What the parsers see in a serialized tree\<close>

text \<open>
  The functions of this section are not part of the program: they describe, for an
  element tree, the segments and events of its serialization, the document minidom
  builds from them, and the segments, events and element tree of the pretty-printed
  document. The lemmas below prove that the model of the libraries computes them.
\<close>

fun text_of :: "string option \<Rightarrow> string" where
  "text_of None = []"
| "text_of (Some t) = t"

fun word_tags :: "element \<Rightarrow> bool" where
  "word_tags (Element tg txt kids) = (list_all re_word tg \<and> list_all word_tags kids)"

fun valid_tree :: "element \<Rightarrow> bool" where
  "valid_tree (Element tg txt kids) =
     (xml_name tg \<and> list_all xml_char (text_of txt) \<and> list_all valid_tree kids)"

fun simple_tree :: "element \<Rightarrow> bool" where
  "simple_tree (Element tg txt kids) =
     ((text_of txt = [] \<or> kids = []) \<and> list_all simple_tree kids)"

fun raw_segments :: "element \<Rightarrow> segment list" where
  "raw_segments (Element tg txt kids) =
     (if text_of txt \<noteq> [] \<or> kids \<noteq> [] then
        Markup tg # (if text_of txt = [] then [] else [Chars (escape_cdata (text_of txt))]) @
        concat (map raw_segments kids) @ [Markup (CHR ''/'' # tg)]
      else [Markup (tg @ '' /'')])"

fun tree_events :: "element \<Rightarrow> xml_event list" where
  "tree_events (Element tg txt kids) =
     StartElement tg #
     (if text_of txt = [] then [] else [CharacterData (newline_normalized (text_of txt))]) @
     concat (map tree_events kids) @ [EndElement tg]"

fun dom_of :: "element \<Rightarrow> dom_node" where
  "dom_of (Element tg txt kids) =
     DomElement tg
       ((if text_of txt = [] then [] else [DomText (newline_normalized (text_of txt))]) @
        map dom_of kids)"

fun pretty_segments :: "string \<Rightarrow> element \<Rightarrow> segment list" where
  "pretty_segments ind (Element tg txt kids) =
     (if kids \<noteq> [] then
        Markup tg #
        concat (map (\<lambda>k. Chars (CHR 0x0A # ind @ ''  '') # pretty_segments (ind @ ''  '') k) kids) @
        [Chars (CHR 0x0A # ind), Markup (CHR ''/'' # tg)]
      else if text_of txt \<noteq> [] then
        [Markup tg, Chars (write_data (newline_normalized (text_of txt))), Markup (CHR ''/'' # tg)]
      else [Markup (tg @ ''/'')])"

fun pretty_events :: "string \<Rightarrow> element \<Rightarrow> xml_event list" where
  "pretty_events ind (Element tg txt kids) =
     StartElement tg #
     (if kids \<noteq> [] then
        concat (map (\<lambda>k. CharacterData (CHR 0x0A # ind @ ''  '') # pretty_events (ind @ ''  '') k) kids) @
        [CharacterData (CHR 0x0A # ind)]
      else if text_of txt \<noteq> [] then [CharacterData (newline_normalized (text_of txt))]
      else []) @
     [EndElement tg]"

fun pretty_tree :: "string \<Rightarrow> element \<Rightarrow> element" where
  "pretty_tree ind (Element tg txt kids) =
     Element tg
       (if kids \<noteq> [] then Some (CHR 0x0A # ind @ ''  '')
        else if text_of txt \<noteq> [] then Some (newline_normalized (text_of txt))
        else None)
       (map (pretty_tree (ind @ ''  '')) kids)"

text \<open>
  The cell as it stands in the frame of line 31, over which the conversion iterates.
\<close>

definition converted :: "cell \<Rightarrow> cell" where
  "converted v = reinferred (clean_data v)"

text \<open>
  The text the verifier recovers for a cell from the document the conversion wrote
  (\<^verbatim>\<open>None\<close> for a leaf without text), as the lemmas below establish: both escaping
  passes of the program are still in it, since the XML writers and parsers undo only
  their own escaping.
\<close>

definition recovered_text :: "cell \<Rightarrow> string option" where
  "recovered_text v =
     (let t = newline_normalized (html_escape (py_str (converted v)))
      in if t = [] then None else Some t)"

text \<open>
  The index that pandas gives a frame by default: the rows are labelled with their
  positions 0, 1, 2 and so on.
\<close>

definition default_index :: "dataframe \<Rightarrow> bool" where
  "default_index df =
     (map fst (rows df) = map (\<lambda>p. IntLabel (int p)) [0..<length (rows df)])"

text \<open>
  The cells of a list of rows in row-major order, each with the position of its row
  and its column name: the rows in order, from position \<open>i\<close> on, and within a row the
  columns in order.
\<close>

fun row_major :: "string list \<Rightarrow> nat \<Rightarrow> cell list list \<Rightarrow> (nat \<times> string \<times> cell) list" where
  "row_major cols i [] = []"
| "row_major cols i (row # rest) =
     map (\<lambda>(key, v). (i, key, v)) (zip cols row) @ row_major cols (Suc i) rest"

text \<open>
  A cell whose display form differs from what \<^verbatim>\<open>xml_data\<close> holds for it at the position
  of its row.
\<close>

definition mismatch :: "(string \<rightharpoonup> string option) list \<Rightarrow> nat \<times> string \<times> cell \<Rightarrow> bool" where
  "mismatch xml_data = (\<lambda>(i, key, v). Some (py_str v) \<noteq> dict_get (xml_data ! i) key)"



text \<open>The leaf and the row node that the loops of the conversion build.\<close>

definition leaf_of :: "string \<times> cell \<Rightarrow> element" where
  "leaf_of = (\<lambda>(key, v). Element key (Some (html_escape (py_str v))) [])"

definition item_of :: "string list \<Rightarrow> cell list \<Rightarrow> element" where
  "item_of cols row = Element ''Item'' None (map leaf_of (zip cols row))"

section \<open>Column names\<close>

lemma re_sub_nonword_word_only:
  "list_all re_word s \<Longrightarrow> re_sub_nonword repl s = s"
  by (induction s) auto

lemma re_sub_nonword_run:
  assumes "r \<noteq> []" "list_all (\<lambda>x. \<not> re_word x) r" "v = [] \<or> re_word (hd v)"
  shows "re_sub_nonword repl (r @ v) = repl @ re_sub_nonword repl v"
proof -
  from assms(1) obtain c cs where r: "r = c # cs" by (cases r) auto
  with assms(2) have c: "\<not> re_word c" and cs: "\<forall>x\<in>set cs. \<not> re_word x"
    by (auto simp: list_all_iff)
  have "dropWhile (\<lambda>x. \<not> re_word x) (cs @ v) = v"
    using cs assms(3) by (cases v) (auto simp: dropWhile_append)
  with c r show ?thesis by simp
qed

lemma re_sub_nonword_append:
  assumes "u = [] \<or> re_word (last u)"
  shows "re_sub_nonword repl (u @ w) = re_sub_nonword repl u @ re_sub_nonword repl w"
  using assms
proof (induction repl u rule: re_sub_nonword.induct)
  case (1 repl)
  then show ?case by simp
next
  case (2 repl c cs)
  show ?case
  proof (cases "re_word c")
    case True
    have "cs = [] \<or> re_word (last cs)" using 2(3) by (cases cs) auto
    with True 2(1) show ?thesis by simp
  next
    case False
    let ?d = "dropWhile (\<lambda>x. \<not> re_word x) cs"
    from False 2(3) have ne: "cs \<noteq> []" and lst: "re_word (last cs)"
      by (auto split: if_splits)
    from lst ne have dne: "?d \<noteq> []"
      by (metis dropWhile_eq_Nil_conv last_in_set)
    have "last ?d = last cs"
      using dne by (metis last_appendR takeWhile_dropWhile_id)
    with lst dne have ih: "re_sub_nonword repl (?d @ w) = re_sub_nonword repl ?d @ re_sub_nonword repl w"
      using 2(2)[OF False] by simp
    have "dropWhile (\<lambda>x. \<not> re_word x) (cs @ w) = ?d @ w"
      using dne by (auto simp: dropWhile_append dropWhile_eq_Nil_conv)
    with False ih show ?thesis by simp
  qed
qed

lemma re_sub_nonword_chars:
  "c \<in> set (re_sub_nonword repl s) \<Longrightarrow> re_word c \<or> c \<in> set repl"
proof (induction repl s rule: re_sub_nonword.induct)
  case (1 repl)
  then show ?case by simp
next
  case (2 repl x xs)
  then show ?case by (cases "re_word x") auto
qed

lemma str_replace_Nil [simp]: "str_replace c r [] = []"
  by (simp add: str_replace_def)

lemma str_replace_Cons [simp]:
  "str_replace c r (x # xs) = (if x = c then r else [x]) @ str_replace c r xs"
  by (simp add: str_replace_def)

lemma str_replace_append [simp]:
  "str_replace c r (a @ b) = str_replace c r a @ str_replace c r b"
  by (simp add: str_replace_def)


lemma escape_cdata_Nil [simp]: "escape_cdata [] = []"
  by (simp add: escape_cdata_def)

lemma escape_cdata_Cons:
  "escape_cdata (x # xs) =
     (if x = CHR ''&'' then ''&amp;'' else if x = CHR ''<'' then ''&lt;''
      else if x = CHR ''>'' then ''&gt;'' else [x]) @ escape_cdata xs"
  by (simp add: escape_cdata_def)

lemma escape_cdata_no_markup:
  "CHR ''<'' \<notin> set (escape_cdata t) \<and> CHR ''>'' \<notin> set (escape_cdata t)"
  by (induction t) (auto simp: escape_cdata_Cons)

lemma escape_cdata_eq_Nil [simp]: "escape_cdata t = [] \<longleftrightarrow> t = []"
  by (cases t) (auto simp: escape_cdata_Cons)

lemma take1_escape_cdata:
  "take (Suc 0) (escape_cdata t) = [CHR 0x0A] \<longleftrightarrow> take (Suc 0) t = [CHR 0x0A]"
  by (cases t) (auto simp: escape_cdata_Cons)

lemma drop1_escape_cdata:
  "take (Suc 0) t = [CHR 0x0A] \<Longrightarrow> drop (Suc 0) (escape_cdata t) = escape_cdata (drop (Suc 0) t)"
  by (cases t) (auto simp: escape_cdata_Cons)

lemma xml_char_simps [simp]:
  "xml_char (CHR 0x0D)" "xml_char (CHR 0x0A)" "xml_char (CHR '' '')" "xml_char (CHR ''&'')"
  "xml_char (CHR ''<'')" "xml_char (CHR ''>'')"
  by (simp_all add: xml_char_def)

lemma take2_no_gt: "CHR ''>'' \<notin> set s \<Longrightarrow> take 2 s \<noteq> '']>''"
  by (metis in_set_takeD list.set_intros(1) list.set_intros(2))

lemma map_sum_Inl_iff [simp]: "map_sum id f r = Inl e \<longleftrightarrow> r = Inl e"
  by (cases r) auto

lemma decode_escape_cdata:
  "decode_cdata (escape_cdata t) =
     (if list_all xml_char t then Inr (newline_normalized t) else Inl NotWellFormed)"
proof (induction t rule: newline_normalized.induct)
  case 1
  then show ?case by simp
next
  case (2 c cs)
  note ng = take2_no_gt[OF conjunct2[OF escape_cdata_no_markup[of cs]]]
  consider "c = CHR ''&''" | "c = CHR ''<''" | "c = CHR ''>''" | "c = CHR 0x0D"
    | "c \<noteq> CHR ''&''" "c \<noteq> CHR ''<''" "c \<noteq> CHR ''>''" "c \<noteq> CHR 0x0D" by blast
  then show ?case
  proof cases
    case 1
    with "2.IH"(2) show ?thesis by (simp add: escape_cdata_Cons xml_char_def)
  next
    case 2
    with "2.IH"(2) show ?thesis by (simp add: escape_cdata_Cons xml_char_def)
  next
    case 3
    with "2.IH"(2) show ?thesis by (simp add: escape_cdata_Cons xml_char_def)
  next
    case 4
    show ?thesis
    proof (cases "take (Suc 0) cs = [CHR 0x0A]")
      case True
      then obtain ds where cs: "cs = CHR 0x0A # ds" by (cases cs) auto
      with 4 "2.IH"(1) show ?thesis by (simp add: escape_cdata_Cons)
    next
      case False
      with 4 "2.IH"(1) show ?thesis
        by (simp add: escape_cdata_Cons take1_escape_cdata)
    qed
  next
    case 5
    with "2.IH"(2) ng show ?thesis by (simp add: escape_cdata_Cons)
  qed
qed

lemma write_data_Nil [simp]: "write_data [] = []"
  by (simp add: write_data_def)

lemma write_data_Cons:
  "write_data (x # xs) =
     (if x = CHR ''&'' then ''&amp;'' else if x = CHR ''<'' then ''&lt;''
      else if x = CHR 0x22 then ''&quot;'' else if x = CHR ''>'' then ''&gt;'' else [x]) @
     write_data xs"
  by (simp add: write_data_def)

lemma write_data_no_markup:
  "CHR ''<'' \<notin> set (write_data t) \<and> CHR ''>'' \<notin> set (write_data t)"
  by (induction t) (auto simp: write_data_Cons)

lemma write_data_eq_Nil [simp]: "write_data t = [] \<longleftrightarrow> t = []"
  by (cases t) (auto simp: write_data_Cons)

lemma take1_write_data:
  "take (Suc 0) (write_data t) = [CHR 0x0A] \<longleftrightarrow> take (Suc 0) t = [CHR 0x0A]"
  by (cases t) (auto simp: write_data_Cons)

lemma xml_char_quote [simp]: "xml_char (CHR 0x22)" "xml_char (CHR 0x27)"
  by (simp_all add: xml_char_def)

lemma decode_write_data:
  "decode_cdata (write_data t) =
     (if list_all xml_char t then Inr (newline_normalized t) else Inl NotWellFormed)"
proof (induction t rule: newline_normalized.induct)
  case 1
  then show ?case by simp
next
  case (2 c cs)
  note ng = take2_no_gt[OF conjunct2[OF write_data_no_markup[of cs]]]
  consider "c = CHR ''&''" | "c = CHR ''<''" | "c = CHR ''>''" | "c = CHR 0x22" | "c = CHR 0x0D"
    | "c \<noteq> CHR ''&''" "c \<noteq> CHR ''<''" "c \<noteq> CHR ''>''" "c \<noteq> CHR 0x22" "c \<noteq> CHR 0x0D" by blast
  then show ?case
  proof cases
    case 1
    with "2.IH"(2) show ?thesis by (simp add: write_data_Cons)
  next
    case 2
    with "2.IH"(2) show ?thesis by (simp add: write_data_Cons)
  next
    case 3
    with "2.IH"(2) show ?thesis by (simp add: write_data_Cons)
  next
    case 4
    with "2.IH"(2) show ?thesis by (simp add: write_data_Cons)
  next
    case 5
    show ?thesis
    proof (cases "take (Suc 0) cs = [CHR 0x0A]")
      case True
      then obtain ds where cs: "cs = CHR 0x0A # ds" by (cases cs) auto
      with 5 "2.IH"(1) show ?thesis by (simp add: write_data_Cons)
    next
      case False
      with 5 "2.IH"(1) show ?thesis
        by (simp add: write_data_Cons take1_write_data)
    qed
  next
    case 6
    with "2.IH"(2) ng show ?thesis by (simp add: write_data_Cons)
  qed
qed

lemma newline_normalized_no_CR: "CHR 0x0D \<notin> set (newline_normalized t)"
  by (induction t rule: newline_normalized.induct) auto

lemma newline_normalized_id: "CHR 0x0D \<notin> set t \<Longrightarrow> newline_normalized t = t"
  by (induction t) auto

lemma newline_normalized_idem [simp]:
  "newline_normalized (newline_normalized t) = newline_normalized t"
  by (simp add: newline_normalized_id newline_normalized_no_CR)

lemma newline_normalized_eq_Nil [simp]: "newline_normalized t = [] \<longleftrightarrow> t = []"
  by (cases t) auto

lemma set_newline_normalized: "set (newline_normalized t) \<subseteq> insert (CHR 0x0A) (set t)"
proof (induction t rule: newline_normalized.induct)
  case 1
  then show ?case by simp
next
  case (2 c cs)
  have "set (drop 1 cs) \<subseteq> set cs" by (rule set_drop_subset)
  with 2 show ?case by (fastforce split: if_splits)
qed

lemma xml_char_newline_normalized:
  "list_all xml_char t \<Longrightarrow> list_all xml_char (newline_normalized t)"
  using set_newline_normalized[of t] by (auto simp: list_all_iff)

lemma html_escape_Nil [simp]: "html_escape [] = []"
  by (simp add: html_escape_def)

lemma html_escape_Cons:
  "html_escape (x # xs) =
     (if x = CHR ''&'' then ''&amp;'' else if x = CHR ''<'' then ''&lt;''
      else if x = CHR ''>'' then ''&gt;'' else if x = CHR 0x22 then ''&quot;''
      else if x = CHR 0x27 then ''&#x27;'' else [x]) @ html_escape xs"
  by (simp add: html_escape_def)

lemma html_escape_eq_Nil [simp]: "html_escape t = [] \<longleftrightarrow> t = []"
  by (cases t) (auto simp: html_escape_Cons)



subsection \<open>Lexing\<close>

lemma lex_chars:
  "CHR ''<'' \<notin> set t \<Longrightarrow> lex_xml (InChars acc) (t @ rest) = lex_xml (InChars (acc @ t)) rest"
  by (induction t arbitrary: acc) auto

lemma lex_markup_acc:
  "CHR ''>'' \<notin> set m \<Longrightarrow>
   lex_xml (InMarkup acc) (m @ CHR ''>'' # rest) = Markup (acc @ m) # lex_xml (InChars []) rest"
  by (induction m arbitrary: acc) auto

lemma lex_tag:
  "CHR ''>'' \<notin> set m \<Longrightarrow>
   lex_xml (InChars acc) (CHR ''<'' # m @ CHR ''>'' # rest) =
     (if acc = [] then [] else [Chars acc]) @ Markup m # lex_xml (InChars []) rest"
  using lex_markup_acc[of m "[]" rest] by simp

lemma lex_chars_tag:
  "CHR ''<'' \<notin> set t \<Longrightarrow> CHR ''>'' \<notin> set m \<Longrightarrow>
   lex_xml (InChars acc) (t @ CHR ''<'' # m @ CHR ''>'' # rest) =
     (if acc @ t = [] then [] else [Chars (acc @ t)]) @ Markup m # lex_xml (InChars []) rest"
  by (simp add: lex_chars lex_markup_acc[of m "[]", simplified])

subsection \<open>Tags whose names are made of word characters\<close>

lemma re_word_not_special:
  "re_word c \<Longrightarrow> c \<noteq> CHR ''<'' \<and> c \<noteq> CHR ''>'' \<and> c \<noteq> CHR ''/'' \<and> c \<noteq> CHR ''?'' \<and>
     c \<noteq> CHR ''!'' \<and> c \<noteq> CHR '':'' \<and> \<not> xml_space c"
  by (auto simp: re_word_def py_isalnum_def xml_space_def)

lemma word_no_gt: "list_all re_word tg \<Longrightarrow> CHR ''>'' \<notin> set tg"
  using re_word_not_special by (auto simp: list_all_iff)

lemma name_char_not_special:
  "\<not> name_char (CHR ''/'')" "\<not> name_char (CHR '' '')" "\<not> name_char (CHR ''>'')"
  by (simp_all add: name_char_def name_start_char_def)

lemma xml_space_simps [simp]:
  "xml_space (CHR '' '')" "\<not> xml_space (CHR ''/'')" "xml_space (CHR 0x0A)"
  by (simp_all add: xml_space_def)

text \<open>The part of a word-character tag after its longest prefix of name characters.\<close>

lemma word_tag_rest:
  assumes "list_all re_word tg" "\<not> list_all name_char tg"
  shows "\<exists>c r. dropWhile name_char tg = c # r \<and> re_word c \<and> \<not> name_char c"
proof -
  from assms(2) have ne: "dropWhile name_char tg \<noteq> []"
    by (simp add: list_all_iff dropWhile_eq_Nil_conv)
  then obtain c r where d: "dropWhile name_char tg = c # r" by (cases "dropWhile name_char tg") auto
  then have "\<not> name_char c" by (metis hd_dropWhile list.sel(1) ne)
  moreover have "c \<in> set tg" by (metis d list.set_intros(1) set_dropWhileD)
  ultimately show ?thesis using d assms(1) by (auto simp: list_all_iff)
qed

lemma takeWhile_all: "list_all P xs \<Longrightarrow> \<not> P y \<Longrightarrow> takeWhile P (xs @ y # ys) = xs"
  by (induction xs) auto

lemma dropWhile_all: "list_all P xs \<Longrightarrow> \<not> P y \<Longrightarrow> dropWhile P (xs @ y # ys) = y # ys"
  by (induction xs) auto

lemma takeWhile_all_Nil: "list_all P xs \<Longrightarrow> takeWhile P xs = xs"
  by (induction xs) auto

lemma dropWhile_all_Nil: "list_all P xs \<Longrightarrow> dropWhile P xs = []"
  by (induction xs) auto

lemma hd_takeWhile_name:
  "tg \<noteq> [] \<Longrightarrow> name_char (hd tg) \<Longrightarrow> hd (takeWhile name_char (tg @ s)) = hd tg"
  by (cases tg) auto

lemma classify_start:
  assumes "list_all re_word tg"
  shows "classify_tag tg = (if xml_name tg then Inr (STag tg) else Inl NotWellFormed)"
proof (cases tg)
  case Nil
  then show ?thesis by (simp add: classify_tag_def xml_name_def)
next
  case (Cons c cs)
  with assms have c: "re_word c" by simp
  note sp = re_word_not_special[OF c]
  show ?thesis
  proof (cases "list_all name_char tg")
    case True
    then show ?thesis using Cons sp
      by (simp add: classify_tag_def xml_name_def takeWhile_all_Nil dropWhile_all_Nil)
  next
    case False
    from word_tag_rest[OF assms False] obtain d r where
      d: "dropWhile name_char tg = d # r" "re_word d" "\<not> name_char d" by blast
    note spd = re_word_not_special[OF d(2)]
    have a: "dropWhile xml_space (d # r) = d # r" using spd by simp
    show ?thesis using Cons sp False d spd a
      by (simp add: classify_tag_def xml_name_def Let_def del: dropWhile.simps takeWhile.simps)
  qed
qed

lemma classify_end:
  assumes "list_all re_word tg"
  shows "classify_tag (CHR ''/'' # tg) = (if xml_name tg then Inr (ETag tg) else Inl NotWellFormed)"
proof (cases "list_all name_char tg")
  case True
  then show ?thesis
    by (simp add: classify_tag_def xml_name_def takeWhile_all_Nil dropWhile_all_Nil)
next
  case False
  from word_tag_rest[OF assms False] obtain d r where
    d: "dropWhile name_char tg = d # r" "re_word d" "\<not> name_char d" by blast
  note spd = re_word_not_special[OF d(2)]
  show ?thesis using False d spd
    by (simp add: classify_tag_def xml_name_def Let_def del: dropWhile.simps takeWhile.simps)
qed

lemma takeWhile_append_rest:
  "dropWhile P xs \<noteq> [] \<Longrightarrow> takeWhile P (xs @ ys) = takeWhile P xs"
  by (induction xs) auto

lemma dropWhile_append_rest:
  "dropWhile P xs \<noteq> [] \<Longrightarrow> dropWhile P (xs @ ys) = dropWhile P xs @ ys"
  by (induction xs) auto

lemma dropWhile_space_slash:
  "dropWhile xml_space '' /'' = ''/''" "dropWhile xml_space ''/'' = ''/''"
  by simp_all

lemma classify_empty:
  assumes "list_all re_word tg" "s = '' /'' \<or> s = ''/''"
  shows "classify_tag (tg @ s) = (if xml_name tg then Inr (EmptyTag tg) else Inl NotWellFormed)"
proof (cases tg)
  case Nil
  then show ?thesis using assms(2)
    by (auto simp: classify_tag_def xml_name_def name_char_not_special)
next
  case (Cons c cs)
  with assms have c: "re_word c" by simp
  note sp = re_word_not_special[OF c]
  show ?thesis
  proof (cases "list_all name_char tg")
    case True
    then have "takeWhile name_char (tg @ s) = tg" "dropWhile name_char (tg @ s) = s"
      using assms(2) by (auto simp: takeWhile_all dropWhile_all name_char_not_special)
    then show ?thesis using Cons sp True assms(2)
      by (auto simp: classify_tag_def xml_name_def Let_def dropWhile_space_slash simp del: dropWhile.simps takeWhile.simps
               dropWhile_append3 takeWhile_append2)
  next
    case False
    from word_tag_rest[OF assms(1) False] obtain d r where
      d: "dropWhile name_char tg = d # r" "re_word d" "\<not> name_char d" by blast
    note spd = re_word_not_special[OF d(2)]
    have t: "takeWhile name_char (tg @ s) = takeWhile name_char tg"
      and dr: "dropWhile name_char (tg @ s) = d # r @ s"
      using d(1) by (simp_all add: takeWhile_append_rest dropWhile_append_rest)
    have a: "dropWhile xml_space (d # r @ s) = d # r @ s" using spd by simp
    have x: "\<not> xml_name tg" using False by (simp add: xml_name_def)
    have m: "tg @ s = c # cs @ s" using Cons by simp
    show ?thesis unfolding classify_tag_def m list.case
      using sp spd x
      by (simp add: Let_def t[unfolded m] dr[unfolded m] a
               del: dropWhile.simps takeWhile.simps dropWhile_append3 takeWhile_append2)
  qed
qed

subsection \<open>The serialized tree, lexed\<close>

lemma lex_flush:
  "acc \<noteq> [] \<Longrightarrow> lex_xml (InChars acc) (CHR ''<'' # cs) = Chars acc # lex_xml (InChars []) (CHR ''<'' # cs)"
  by simp

lemma serialize_xml_starts: "\<exists>r. serialize_xml e = CHR ''<'' # r"
  by (cases e) simp

lemma concat_serialize_starts:
  "\<exists>r. concat (map serialize_xml kids) @ CHR ''<'' # s = CHR ''<'' # r"
proof (cases kids)
  case Nil
  then show ?thesis by simp
next
  case (Cons k ks)
  obtain r where "serialize_xml k = CHR ''<'' # r" using serialize_xml_starts by blast
  with Cons show ?thesis by simp
qed

lemma lex_kids:
  assumes "\<And>k rest. k \<in> set kids \<Longrightarrow>
             lex_xml (InChars []) (serialize_xml k @ rest) = raw_segments k @ lex_xml (InChars []) rest"
  shows "lex_xml (InChars []) (concat (map serialize_xml kids) @ rest) =
           concat (map raw_segments kids) @ lex_xml (InChars []) rest"
  using assms by (induction kids) simp_all

lemma lex_serialize:
  "word_tags e \<Longrightarrow>
   lex_xml (InChars []) (serialize_xml e @ rest) = raw_segments e @ lex_xml (InChars []) rest"
proof (induction e arbitrary: rest)
  case (Element tg tx kids)
  have wt: "list_all re_word tg" and wk: "\<And>k. k \<in> set kids \<Longrightarrow> word_tags k"
    using Element.prems by (auto simp: list_all_iff)
  note ngt = word_no_gt[OF wt]
  have kids: "\<And>rest. lex_xml (InChars []) (concat (map serialize_xml kids) @ rest) =
           concat (map raw_segments kids) @ lex_xml (InChars []) rest"
    using Element.IH wk by (intro lex_kids) auto
  have close: "\<And>rest. lex_xml (InChars []) (CHR ''<'' # CHR ''/'' # tg @ CHR ''>'' # rest)
      = Markup (CHR ''/'' # tg) # lex_xml (InChars []) rest"
    using lex_tag[of "CHR ''/'' # tg" "[]"] ngt by simp
  show ?case
  proof (cases "text_of tx \<noteq> [] \<or> kids \<noteq> []")
    case False
    then have s: "serialize_xml (Element tg tx kids) @ rest = CHR ''<'' # (tg @ '' /'') @ CHR ''>'' # rest"
      by (cases tx) auto
    show ?thesis unfolding s using False lex_tag[of "tg @ '' /''" "[]" rest] ngt by simp
  next
    case True
    let ?K = "concat (map serialize_xml kids) @ CHR ''<'' # CHR ''/'' # tg @ CHR ''>'' # rest"
    have s: "serialize_xml (Element tg tx kids) @ rest =
        CHR ''<'' # tg @ CHR ''>'' # escape_cdata (text_of tx) @ ?K"
      using True by (cases tx) auto
    have body: "lex_xml (InChars []) (escape_cdata (text_of tx) @ ?K) =
        (if text_of tx = [] then [] else [Chars (escape_cdata (text_of tx))]) @
        concat (map raw_segments kids) @ Markup (CHR ''/'' # tg) # lex_xml (InChars []) rest"
    proof (cases "text_of tx = []")
      case True
      then show ?thesis using kids close by simp
    next
      case False
      obtain r where r: "?K = CHR ''<'' # r" using concat_serialize_starts by blast
      have "lex_xml (InChars []) (escape_cdata (text_of tx) @ ?K) =
              lex_xml (InChars (escape_cdata (text_of tx))) ?K"
        using lex_chars[of "escape_cdata (text_of tx)" "[]"] escape_cdata_no_markup by simp
      also have "\<dots> = Chars (escape_cdata (text_of tx)) # lex_xml (InChars []) ?K"
        unfolding r using False by (intro lex_flush) simp
      finally show ?thesis using False kids close by simp
    qed
    show ?thesis unfolding s using True body lex_tag[of tg "[]"] ngt by simp
  qed
qed

subsection \<open>The events of the serialized tree\<close>

lemma map_sum_id_comp: "map_sum id f (map_sum id g r) = map_sum id (\<lambda>x. f (g x)) r"
  by (cases r) auto

lemma events_kids:
  assumes "\<And>k segs. k \<in> set kids \<Longrightarrow>
             events True st (raw_segments k @ segs) =
               (if valid_tree k then map_sum id ((@) (tree_events k)) (events True st segs)
                else Inl NotWellFormed)"
  shows "events True st (concat (map raw_segments kids) @ segs) =
           (if list_all valid_tree kids
            then map_sum id ((@) (concat (map tree_events kids))) (events True st segs)
            else Inl NotWellFormed)"
  using assms
proof (induction kids)
  case Nil
  show ?case by (cases "events True st segs") auto
next
  case (Cons k ks)
  then show ?case by (cases "events True st segs") auto
qed

lemma events_serialize:
  "word_tags e \<Longrightarrow> \<not> (seen \<and> st = []) \<Longrightarrow>
   events seen st (raw_segments e @ segs) =
     (if valid_tree e then map_sum id ((@) (tree_events e)) (events True st segs)
      else Inl NotWellFormed)"
proof (induction e arbitrary: seen st segs)
  case (Element tg tx kids)
  have wt: "list_all re_word tg" and wk: "\<And>k. k \<in> set kids \<Longrightarrow> word_tags k"
    using Element.prems by (auto simp: list_all_iff)
  have kids: "\<And>segs. events True (tg # st) (concat (map raw_segments kids) @ segs) =
           (if list_all valid_tree kids
            then map_sum id ((@) (concat (map tree_events kids))) (events True (tg # st) segs)
            else Inl NotWellFormed)"
    using Element.IH wk by (intro events_kids) auto
  show ?case
  proof (cases "xml_name tg")
    case False
    then show ?thesis by (simp add: classify_start[OF wt] classify_empty[OF wt])
  next
    case True
    show ?thesis
    proof (cases "text_of tx \<noteq> [] \<or> kids \<noteq> []")
      case False
      then show ?thesis using True Element.prems(2)
        by (cases "events True st segs") (auto simp: classify_empty[OF wt])
    next
      case c: True
      have close: "events True (tg # st) (Markup (CHR ''/'' # tg) # segs) =
          map_sum id ((#) (EndElement tg)) (events True st segs)"
        using True by (simp add: classify_end[OF wt])
      show ?thesis
      proof (cases "text_of tx = []")
        case t: True
        then show ?thesis using True c Element.prems(2) kids[of "Markup (CHR ''/'' # tg) # segs"] close
          by (cases "events True st segs") (auto simp: classify_start[OF wt])
      next
        case t: False
        then show ?thesis using True c Element.prems(2) kids[of "Markup (CHR ''/'' # tg) # segs"] close
          by (cases "events True st segs")
             (auto simp: classify_start[OF wt] decode_escape_cdata)
      qed
    qed
  qed
qed

subsection \<open>The document minidom builds\<close>

lemma dom_build_kids:
  assumes "\<And>k pk evs. k \<in> set kids \<Longrightarrow>
             dom_build ((p, pk) # st) (tree_events k @ evs) = dom_build ((p, pk @ [dom_of k]) # st) evs"
  shows "dom_build ((p, pk) # st) (concat (map tree_events kids) @ evs) =
           dom_build ((p, pk @ map dom_of kids) # st) evs"
  using assms by (induction kids arbitrary: pk) simp_all

lemma dom_build_tree:
  "dom_build ((p, pk) # st) (tree_events e @ evs) = dom_build ((p, pk @ [dom_of e]) # st) evs"
proof (induction e arbitrary: p pk st evs)
  case (Element tg tx kids)
  have kids: "\<And>ks evs. dom_build ((tg, ks) # (p, pk) # st) (concat (map tree_events kids) @ evs) =
           dom_build ((tg, ks @ map dom_of kids) # (p, pk) # st) evs"
    using Element.IH by (intro dom_build_kids) auto
  show ?case using kids by simp
qed

lemma take2_serialize: "word_tags e \<Longrightarrow> take 2 (serialize_xml e) \<noteq> ''<?''"
proof (cases e)
  case (Element tg tx kids)
  assume "word_tags e"
  with Element have wt: "list_all re_word tg" by simp
  show ?thesis
  proof (cases tg)
    case Nil
    with Element show ?thesis by simp
  next
    case (Cons c cs)
    with wt have "re_word c" by simp
    from re_word_not_special[OF this] Cons Element show ?thesis by simp
  qed
qed

lemma minidom_parse_tostring:
  assumes "word_tags root"
  shows "minidom_parseString (ET_tostring root) =
           (if valid_tree root then Inr [dom_of root] else Inl ExpatError)"
proof -
  have "lex_xml (InChars []) (serialize_xml root) = raw_segments root"
    using lex_serialize[OF assms, of "[]"] by simp
  moreover have "events False [] (raw_segments root) =
      (if valid_tree root then Inr (tree_events root) else Inl NotWellFormed)"
    using events_serialize[OF assms, of False "[]" "[]"] by simp
  moreover have "dom_build [(''#document'', [])] (tree_events root) = [dom_of root]"
    using dom_build_tree[of "''#document''" "[]" "[]" root "[]"] by simp
  ultimately show ?thesis
    using take2_serialize[OF assms]
    by (simp add: minidom_parseString_def ET_tostring_def expat_parse_def)
qed

subsection \<open>The pretty-printed document, lexed\<close>

lemma writexml_dom_of:
  assumes "simple_tree (Element tg tx kids)"
  shows "writexml (dom_of (Element tg tx kids)) ind add newl =
     ind @ CHR ''<'' # tg @
       (if kids \<noteq> [] then
          CHR ''>'' # newl @ concat (map (\<lambda>k. writexml (dom_of k) (ind @ add) add newl) kids) @
          ind @ CHR ''<'' # CHR ''/'' # tg @ CHR ''>'' # newl
        else if text_of tx \<noteq> [] then
          CHR ''>'' # write_data (newline_normalized (text_of tx)) @
          CHR ''<'' # CHR ''/'' # tg @ CHR ''>'' # newl
        else CHR ''/'' # CHR ''>'' # newl)"
proof (cases "kids = []")
  case True
  then show ?thesis by simp
next
  case False
  with assms have t: "text_of tx = []" by simp
  from False obtain k ks where kids: "kids = k # ks" by (cases kids) auto
  obtain g gx gk where k: "k = Element g gx gk" by (cases k) auto
  show ?thesis using t unfolding kids k
    by (simp add: comp_def)
qed

lemma lex_pretty_kids:
  assumes "\<And>k rest. k \<in> set kids \<Longrightarrow>
             lex_xml (InChars [CHR 0x0A]) (writexml (dom_of k) ind ''  '' [CHR 0x0A] @ rest) =
               Chars (CHR 0x0A # ind) # pretty_segments ind k @ lex_xml (InChars [CHR 0x0A]) rest"
  shows "lex_xml (InChars [CHR 0x0A])
           (concat (map (\<lambda>k. writexml (dom_of k) ind ''  '' [CHR 0x0A]) kids) @ rest) =
         concat (map (\<lambda>k. Chars (CHR 0x0A # ind) # pretty_segments ind k) kids) @
         lex_xml (InChars [CHR 0x0A]) rest"
  using assms by (induction kids) simp_all

lemma lex_pretty:
  "simple_tree e \<Longrightarrow> word_tags e \<Longrightarrow> list_all (\<lambda>c. c = CHR '' '') ind \<Longrightarrow>
   lex_xml (InChars acc) (writexml (dom_of e) ind ''  '' [CHR 0x0A] @ rest) =
     (if acc @ ind = [] then [] else [Chars (acc @ ind)]) @ pretty_segments ind e @
     lex_xml (InChars [CHR 0x0A]) rest"
proof (induction e arbitrary: ind acc rest)
  case (Element tg tx kids)
  have wt: "list_all re_word tg" and wk: "\<And>k. k \<in> set kids \<Longrightarrow> word_tags k"
    and sk: "\<And>k. k \<in> set kids \<Longrightarrow> simple_tree k"
    using Element.prems(1,2) by (auto simp: list_all_iff)
  note ngt = word_no_gt[OF wt]
  have ind2: "list_all (\<lambda>c. c = CHR '' '') (ind @ ''  '')"
    using Element.prems(3) by simp
  have ind: "CHR ''<'' \<notin> set ind"
  proof
    assume "CHR ''<'' \<in> set ind"
    with Element.prems(3) have "CHR ''<'' = CHR '' ''" by (simp add: list_all_iff)
    then show False by simp
  qed
  have nl: "\<And>rest. lex_xml (InChars []) (CHR 0x0A # rest) = lex_xml (InChars [CHR 0x0A]) rest"
    by simp
  have kids: "\<And>rest. lex_xml (InChars [CHR 0x0A])
           (concat (map (\<lambda>k. writexml (dom_of k) (ind @ ''  '') ''  '' [CHR 0x0A]) kids) @ rest) =
         concat (map (\<lambda>k. Chars (CHR 0x0A # ind @ ''  '') # pretty_segments (ind @ ''  '') k) kids) @
         lex_xml (InChars [CHR 0x0A]) rest"
  proof (rule lex_pretty_kids)
    fix k rest assume k: "k \<in> set kids"
    show "lex_xml (InChars [CHR 0x0A]) (writexml (dom_of k) (ind @ ''  '') ''  '' [CHR 0x0A] @ rest) =
               Chars (CHR 0x0A # ind @ ''  '') # pretty_segments (ind @ ''  '') k @
               lex_xml (InChars [CHR 0x0A]) rest"
      using Element.IH[OF k sk[OF k] wk[OF k] ind2, of "[CHR 0x0A]" rest] by simp
  qed
  have close: "\<And>a rest. lex_xml (InChars a) (CHR ''<'' # CHR ''/'' # tg @ CHR ''>'' # CHR 0x0A # rest)
      = (if a = [] then [] else [Chars a]) @ Markup (CHR ''/'' # tg) # lex_xml (InChars [CHR 0x0A]) rest"
    using lex_tag[of "CHR ''/'' # tg"] ngt by simp
  have open_tag: "\<And>m rest. CHR ''>'' \<notin> set m \<Longrightarrow>
      lex_xml (InChars acc) (ind @ CHR ''<'' # m @ CHR ''>'' # rest) =
      (if acc @ ind = [] then [] else [Chars (acc @ ind)]) @ Markup m # lex_xml (InChars []) rest"
    using lex_chars_tag[OF ind] by simp
  show ?case
  proof (cases "kids \<noteq> []")
    case True
    let ?K = "concat (map (\<lambda>k. writexml (dom_of k) (ind @ ''  '') ''  '' [CHR 0x0A]) kids)"
    have w: "writexml (dom_of (Element tg tx kids)) ind ''  '' [CHR 0x0A] @ rest =
        ind @ CHR ''<'' # tg @ CHR ''>'' # CHR 0x0A #
          (?K @ ind @ CHR ''<'' # CHR ''/'' # tg @ CHR ''>'' # CHR 0x0A # rest)"
      unfolding writexml_dom_of[OF Element.prems(1)] using True by simp
    have k: "lex_xml (InChars [CHR 0x0A])
           (?K @ ind @ CHR ''<'' # CHR ''/'' # tg @ CHR ''>'' # CHR 0x0A # rest) =
         concat (map (\<lambda>k. Chars (CHR 0x0A # ind @ ''  '') # pretty_segments (ind @ ''  '') k) kids) @
         Chars (CHR 0x0A # ind) # Markup (CHR ''/'' # tg) # lex_xml (InChars [CHR 0x0A]) rest"
      unfolding kids using lex_chars[OF ind, of "[CHR 0x0A]"] close by simp
    show ?thesis unfolding w open_tag[OF ngt] nl k using True by simp
  next
    case False
    show ?thesis
    proof (cases "text_of tx \<noteq> []")
      case True
      let ?w = "write_data (newline_normalized (text_of tx))"
      have w: "writexml (dom_of (Element tg tx kids)) ind ''  '' [CHR 0x0A] @ rest =
        ind @ CHR ''<'' # tg @ CHR ''>'' #
          (?w @ CHR ''<'' # (CHR ''/'' # tg) @ CHR ''>'' # CHR 0x0A # rest)"
        unfolding writexml_dom_of[OF Element.prems(1)] using True False by simp
      have wne: "?w \<noteq> []" using True by simp
      have k: "lex_xml (InChars []) (?w @ CHR ''<'' # (CHR ''/'' # tg) @ CHR ''>'' # CHR 0x0A # rest) =
          Chars ?w # Markup (CHR ''/'' # tg) # lex_xml (InChars [CHR 0x0A]) rest"
        using lex_chars_tag[of ?w "CHR ''/'' # tg" "[]"] write_data_no_markup[of "newline_normalized (text_of tx)"]
          ngt wne nl by simp
      show ?thesis unfolding w open_tag[OF ngt] k using True False by simp
    next
      case t: False
      have w: "writexml (dom_of (Element tg tx kids)) ind ''  '' [CHR 0x0A] @ rest =
        ind @ CHR ''<'' # (tg @ ''/'') @ CHR ''>'' # CHR 0x0A # rest"
        unfolding writexml_dom_of[OF Element.prems(1)] using t False by simp
      have g: "CHR ''>'' \<notin> set (tg @ ''/'')" using ngt by simp
      show ?thesis unfolding w open_tag[OF g] nl using t False by simp
    qed
  qed
qed

subsection \<open>The events of the pretty-printed document\<close>

lemma decode_indent:
  "list_all (\<lambda>c. c = CHR '' '') ind \<Longrightarrow> decode_cdata (CHR 0x0A # ind) = Inr (CHR 0x0A # ind)"
proof -
  assume a: "list_all (\<lambda>c. c = CHR '' '') ind"
  have "decode_cdata ind = Inr ind" using a by (induction ind) (auto simp: xml_char_def)
  then show ?thesis by (simp add: xml_char_def)
qed

lemma events_pretty_kids:
  assumes "\<And>k segs. k \<in> set kids \<Longrightarrow>
             events True st (pretty_segments ind k @ segs) =
               map_sum id ((@) (pretty_events ind k)) (events True st segs)"
    and "st \<noteq> []" and "decode_cdata ws = Inr ws"
  shows "events True st (concat (map (\<lambda>k. Chars ws # pretty_segments ind k) kids) @ segs) =
           map_sum id ((@) (concat (map (\<lambda>k. CharacterData ws # pretty_events ind k) kids)))
             (events True st segs)"
  using assms(1)
proof (induction kids)
  case Nil
  show ?case by (cases "events True st segs") auto
next
  case (Cons k ks)
  then show ?case using assms(2,3) by (cases "events True st segs") auto
qed

lemma events_pretty:
  "word_tags e \<Longrightarrow> valid_tree e \<Longrightarrow> list_all (\<lambda>c. c = CHR '' '') ind \<Longrightarrow>
   \<not> (seen \<and> st = []) \<Longrightarrow>
   events seen st (pretty_segments ind e @ segs) =
     map_sum id ((@) (pretty_events ind e)) (events True st segs)"
proof (induction e arbitrary: seen st segs ind)
  case (Element tg tx kids)
  have wt: "list_all re_word tg" and wk: "\<And>k. k \<in> set kids \<Longrightarrow> word_tags k"
    and vk: "\<And>k. k \<in> set kids \<Longrightarrow> valid_tree k"
    and xn: "xml_name tg" and xc: "list_all xml_char (text_of tx)"
    using Element.prems(1,2) by (auto simp: list_all_iff)
  have ind2: "list_all (\<lambda>c. c = CHR '' '') (ind @ ''  '')"
    using Element.prems(3) by simp
  have kids: "\<And>segs. events True (tg # st)
           (concat (map (\<lambda>k. Chars (CHR 0x0A # ind @ ''  '') # pretty_segments (ind @ ''  '') k) kids) @ segs) =
         map_sum id ((@) (concat (map (\<lambda>k. CharacterData (CHR 0x0A # ind @ ''  '') # pretty_events (ind @ ''  '') k) kids)))
           (events True (tg # st) segs)"
  proof (rule events_pretty_kids)
    fix k segs assume k: "k \<in> set kids"
    show "events True (tg # st) (pretty_segments (ind @ ''  '') k @ segs) =
            map_sum id ((@) (pretty_events (ind @ ''  '') k)) (events True (tg # st) segs)"
      by (rule Element.IH[OF k wk[OF k] vk[OF k] ind2]) simp
  next
    show "tg # st \<noteq> []" by simp
  next
    show "decode_cdata (CHR 0x0A # ind @ ''  '') = Inr (CHR 0x0A # ind @ ''  '')"
      using decode_indent[OF ind2] .
  qed
  have close: "events True (tg # st) (Markup (CHR ''/'' # tg) # segs) =
      map_sum id ((#) (EndElement tg)) (events True st segs)"
    using xn by (simp add: classify_end[OF wt])
  have start: "\<And>segs. events seen st (Markup tg # segs) =
      map_sum id ((#) (StartElement tg)) (events True (tg # st) segs)"
    using xn Element.prems(4) by (auto simp: classify_start[OF wt])
  show ?case
  proof (cases "kids \<noteq> []")
    case True
    have tail: "events True (tg # st) (Chars (CHR 0x0A # ind) # Markup (CHR ''/'' # tg) # segs) =
        map_sum id (\<lambda>evs. CharacterData (CHR 0x0A # ind) # EndElement tg # evs) (events True st segs)"
      unfolding events.simps(3) close using decode_indent[OF Element.prems(3)]
      by (cases "events True st segs") auto
    have seg: "pretty_segments ind (Element tg tx kids) @ segs =
        Markup tg # (concat (map (\<lambda>k. Chars (CHR 0x0A # ind @ ''  '') # pretty_segments (ind @ ''  '') k) kids) @
        (Chars (CHR 0x0A # ind) # Markup (CHR ''/'' # tg) # segs))"
      using True by simp
    show ?thesis unfolding seg start kids tail using True
      by (cases "events True st segs") auto
  next
    case False
    show ?thesis
    proof (cases "text_of tx \<noteq> []")
      case True
      have d: "decode_cdata (write_data (newline_normalized (text_of tx))) =
          Inr (newline_normalized (text_of tx))"
        using xc by (simp add: decode_write_data xml_char_newline_normalized)
      have seg: "pretty_segments ind (Element tg tx kids) @ segs =
          Markup tg # Chars (write_data (newline_normalized (text_of tx))) #
          Markup (CHR ''/'' # tg) # segs"
        using True False by simp
      show ?thesis unfolding seg start events.simps(3) close d using True False
        by (cases "events True st segs") auto
    next
      case t: False
      have em: "events seen st (Markup (tg @ ''/'') # segs) =
          map_sum id (\<lambda>evs. StartElement tg # EndElement tg # evs) (events True st segs)"
        using xn Element.prems(4) by (auto simp: classify_empty[OF wt])
      have seg: "pretty_segments ind (Element tg tx kids) @ segs = Markup (tg @ ''/'') # segs"
        using t False by simp
      show ?thesis unfolding seg em using t False by (cases "events True st segs") auto
    qed
  qed
qed

subsection \<open>The element tree ElementTree builds\<close>

lemma tree_build_kids:
  assumes "\<And>k p pt pks st d ae evs. k \<in> set kids \<Longrightarrow>
             tree_build ((p, pt, pks) # st) d ae (pretty_events ind k @ evs) =
               tree_build ((p, (if d \<noteq> [] \<and> \<not> ae then Some d else pt), pks @ [pretty_tree ind k]) # st)
                 [] True evs"
    and "ws \<noteq> []"
  shows "tree_build ((p, pt, pks) # st) [] ae
           (concat (map (\<lambda>k. CharacterData ws # pretty_events ind k) kids) @ evs) =
         tree_build ((p, (if kids \<noteq> [] \<and> \<not> ae then Some ws else pt),
                      pks @ map (pretty_tree ind) kids) # st)
           [] (if kids = [] then ae else True) evs"
  using assms(1)
proof (induction kids arbitrary: pt pks ae)
  case Nil
  show ?case by simp
next
  case (Cons k ks)
  have "tree_build ((p, pt, pks) # st) [] ae
           (concat (map (\<lambda>k. CharacterData ws # pretty_events ind k) (k # ks)) @ evs) =
        tree_build ((p, pt, pks) # st) ws ae
           (pretty_events ind k @ concat (map (\<lambda>k. CharacterData ws # pretty_events ind k) ks) @ evs)"
    by simp
  also have "\<dots> = tree_build ((p, (if \<not> ae then Some ws else pt), pks @ [pretty_tree ind k]) # st) [] True
           (concat (map (\<lambda>k. CharacterData ws # pretty_events ind k) ks) @ evs)"
    using Cons.prems[of k] assms(2) by simp
  also have "\<dots> = tree_build ((p, (if \<not> ae then Some ws else pt),
                      (pks @ [pretty_tree ind k]) @ map (pretty_tree ind) ks) # st)
           [] True evs"
    using Cons.IH[of "if \<not> ae then Some ws else pt" "pks @ [pretty_tree ind k]" True] Cons.prems
    by (cases "ks = []") auto
  finally show ?case by simp
qed

lemma tree_build_pretty:
  "tree_build ((p, pt, pks) # st) d ae (pretty_events ind e @ evs) =
     tree_build ((p, (if d \<noteq> [] \<and> \<not> ae then Some d else pt), pks @ [pretty_tree ind e]) # st)
       [] True evs"
proof (induction e arbitrary: p pt pks st d ae evs ind)
  case (Element tg tx kids)
  let ?pt = "if d \<noteq> [] \<and> \<not> ae then Some d else pt"
  have fl: "tb_flush ((p, pt, pks) # st) d ae = (p, ?pt, pks) # st"
    by (simp add: tb_flush_def)
  show ?case
  proof (cases "kids \<noteq> []")
    case True
    let ?ws = "CHR 0x0A # ind @ ''  ''"
    have k: "\<And>evs. tree_build ((tg, None, []) # (p, ?pt, pks) # st) [] False
           (concat (map (\<lambda>k. CharacterData ?ws # pretty_events (ind @ ''  '') k) kids) @ evs) =
         tree_build ((tg, Some ?ws, map (pretty_tree (ind @ ''  '')) kids) # (p, ?pt, pks) # st)
           [] True evs"
      using tree_build_kids[of kids "ind @ ''  ''" ?ws tg None "[]" "(p, ?pt, pks) # st" False]
        Element.IH True by simp
    have "tree_build ((p, pt, pks) # st) d ae (pretty_events ind (Element tg tx kids) @ evs) =
        tree_build ((tg, None, []) # (p, ?pt, pks) # st) [] False
           (concat (map (\<lambda>k. CharacterData ?ws # pretty_events (ind @ ''  '') k) kids) @
            (CharacterData (CHR 0x0A # ind) # EndElement tg # evs))"
      using True fl by simp
    also have "\<dots> = tree_build ((p, ?pt, pks @ [pretty_tree ind (Element tg tx kids)]) # st) [] True evs"
      unfolding k using True by (simp add: tb_flush_def)
    finally show ?thesis .
  next
    case False
    then show ?thesis using fl by (simp add: tb_flush_def)
  qed
qed

subsection \<open>Parsing the pretty-printed document\<close>

lemma ET_parse_pretty:
  assumes "word_tags root" "valid_tree root" "simple_tree root"
  shows "ET_parse (toprettyxml [dom_of root] ''  '') = Inr (pretty_tree [] root)"
proof -
  let ?w = "writexml (dom_of root) [] ''  '' [CHR 0x0A]"
  have d: "toprettyxml [dom_of root] ''  '' = xml_declaration @ CHR 0x0A # ?w"
    by (simp add: toprettyxml_def)
  have e: "expat_parse (xml_declaration @ CHR 0x0A # ?w) =
      events False [] (lex_xml (InChars []) (CHR 0x0A # ?w))"
    by (simp add: expat_parse_def xml_declaration_def)
  have l: "lex_xml (InChars []) (CHR 0x0A # ?w) =
      Chars [CHR 0x0A] # pretty_segments [] root @ [Chars [CHR 0x0A]]"
    using lex_pretty[OF assms(3,1), of "[]" "[CHR 0x0A]" "[]"] by simp
  have ev: "events False [] (Chars [CHR 0x0A] # pretty_segments [] root @ [Chars [CHR 0x0A]]) =
      Inr (pretty_events [] root)"
    using events_pretty[OF assms(1,2), of "[]" False "[]" "[Chars [CHR 0x0A]]"] by simp
  have tb: "tree_build [(''#root'', None, [])] [] True (pretty_events [] root) = [pretty_tree [] root]"
    using tree_build_pretty[of "''#root''" None "[]" "[]" "[]" True "[]" root "[]"] by simp
  show ?thesis unfolding d ET_parse_def e l ev using tb by simp
qed

subsection \<open>The loops of the conversion\<close>

lemma filter_count_distinct:
  "distinct cols \<Longrightarrow> length (filter (\<lambda>c. c = key) cols) \<le> 1"
  by (induction cols) (auto simp: filter_empty_conv)

lemma row_get_zip:
  assumes "distinct cols" "(key, v) \<in> set (zip cols row)"
  shows "row_get cols row key = Inr v"
proof -
  have "distinct (map fst (zip cols row))"
    using assms(1) by (simp add: distinct_take map_fst_zip_take)
  then have "map_of (zip cols row) key = Some v" using assms(2) by simp
  then show ?thesis using filter_count_distinct[OF assms(1), of key]
    by (simp add: row_get_def)
qed

lemma leaf_elements_pairs:
  assumes "\<And>key v. (key, v) \<in> set kvs \<Longrightarrow> row_get cols row key = Inr v"
  shows "leaf_elements cols row i (map fst kvs) = ([], Inr (map leaf_of kvs))"
  using assms
proof (induction kvs)
  case Nil
  show ?case by simp
next
  case (Cons kv kvs)
  obtain key v where kv: "kv = (key, v)" by (cases kv)
  have g: "row_get cols row key = Inr v" using Cons.prems[of key v] kv by simp
  have "leaf_elements cols row i (map fst kvs) = ([], Inr (map leaf_of kvs))"
    using Cons.IH Cons.prems by simp
  with g kv show ?case by (simp add: leaf_of_def)
qed

lemma leaf_elements_ok:
  assumes "distinct cols" "length cols \<le> length row"
  shows "leaf_elements cols row i cols = ([], Inr (map leaf_of (zip cols row)))"
  using leaf_elements_pairs[of "zip cols row" cols row i] row_get_zip[OF assms(1)] assms(2)
  by (simp add: map_fst_zip_take)

lemma item_elements_ok:
  assumes "distinct cols" "\<And>row. row \<in> snd ` set rs \<Longrightarrow> length cols \<le> length row"
  shows "item_elements cols rs = ([], Inr (map (item_of cols) (map snd rs)))"
  using assms(2)
proof (induction rs)
  case Nil
  show ?case by simp
next
  case (Cons r rest)
  obtain i row where r: "r = (i, row)" by (cases r)
  from Cons.prems r have "length cols \<le> length row" by force
  from leaf_elements_ok[OF assms(1) this]
  have l: "leaf_elements cols row i cols = ([], Inr (map leaf_of (zip cols row)))" .
  have "item_elements cols rest = ([], Inr (map (item_of cols) (map snd rest)))"
    using Cons.IH Cons.prems by simp
  with l r show ?case by (simp add: item_of_def)
qed

lemma row_get_Inr:
  "row_get cols row key = Inr v \<Longrightarrow>
     length (filter (\<lambda>c. c = key) cols) \<le> 1 \<and> map_of (zip cols row) key = Some v"
  by (auto simp: row_get_def split: if_splits option.splits)

lemma leaf_elements_Inr:
  "leaf_elements cols row i keys = (log, Inr leaves) \<Longrightarrow>
     \<forall>key \<in> set keys. \<exists>v. row_get cols row key = Inr v"
  by (induction keys arbitrary: log leaves)
     (auto split: sum.splits prod.splits py_exn.splits)

lemma count_distinct:
  assumes "\<And>key. key \<in> set cols \<Longrightarrow> length (filter (\<lambda>c. c = key) cols) \<le> 1"
  shows "distinct cols"
  using assms
proof (induction cols)
  case Nil
  then show ?case by simp
next
  case (Cons c cs)
  have "c \<notin> set cs"
  proof
    assume "c \<in> set cs"
    then have "filter (\<lambda>x. x = c) cs \<noteq> []" by (auto simp: filter_empty_conv)
    then have "1 \<le> length (filter (\<lambda>x. x = c) cs)" by (cases "filter (\<lambda>x. x = c) cs") auto
    with Cons.prems[of c] show False by simp
  qed
  moreover have "distinct cs"
  proof (rule Cons.IH)
    fix key assume "key \<in> set cs"
    with Cons.prems[of key] show "length (filter (\<lambda>c. c = key) cs) \<le> 1"
      by (auto split: if_splits)
  qed
  ultimately show ?case by simp
qed

lemma all_found_length:
  assumes "distinct cols" "\<And>key. key \<in> set cols \<Longrightarrow> map_of (zip cols row) key \<noteq> None"
  shows "length cols \<le> length row"
proof (rule ccontr)
  assume "\<not> length cols \<le> length row"
  then have lt: "length row < length cols" by simp
  let ?k = "cols ! length row"
  have "?k \<in> set cols" using lt by simp
  then have "?k \<in> fst ` set (zip cols row)" using assms(2) by (metis map_of_eq_None_iff)
  then have "?k \<in> set (take (length row) cols)"
    by (metis list.set_map map_fst_zip_take min.absorb2 less_imp_le lt)
  then obtain j where "j < length row" "cols ! j = ?k"
    using lt by (auto simp: in_set_conv_nth)
  with assms(1) lt show False by (simp add: nth_eq_iff_index_eq)
qed

lemma leaf_elements_frame:
  assumes "leaf_elements cols row i cols = (log, Inr leaves)"
  shows "distinct cols \<and> length cols \<le> length row"
proof -
  from leaf_elements_Inr[OF assms]
  have f: "\<And>key. key \<in> set cols \<Longrightarrow> \<exists>v. row_get cols row key = Inr v" by blast
  have d: "distinct cols"
    by (rule count_distinct) (use f row_get_Inr in blast)
  moreover have "length cols \<le> length row"
  proof (rule all_found_length[OF d])
    fix key assume "key \<in> set cols"
    from f[OF this] row_get_Inr show "map_of (zip cols row) key \<noteq> None" by fastforce
  qed
  ultimately show ?thesis by simp
qed

lemma item_elements_frame:
  "item_elements cols rs = (log, Inr items) \<Longrightarrow> rs \<noteq> [] \<Longrightarrow>
     distinct cols \<and> (\<forall>row \<in> snd ` set rs. length cols \<le> length row)"
proof (induction rs arbitrary: log items)
  case Nil
  then show ?case by simp
next
  case (Cons r rest)
  obtain i row where r: "r = (i, row)" by (cases r)
  from Cons.prems(1) r obtain l1 leaves l2 its where
    le: "leaf_elements cols row i cols = (l1, Inr leaves)"
    and it: "item_elements cols rest = (l2, Inr its)"
    by (auto split: sum.splits prod.splits)
  from leaf_elements_frame[OF le] have 1: "distinct cols" "length cols \<le> length row" by auto
  show ?case
  proof (cases "rest = []")
    case True
    with 1 r show ?thesis by simp
  next
    case False
    from Cons.IH[OF it False] 1 r show ?thesis by simp
  qed
qed

lemma item_elements_Inr:
  assumes "item_elements cols rs = (log, Inr items)"
  shows "log = [] \<and> items = map (item_of cols) (map snd rs)"
proof (cases "rs = []")
  case True
  with assms show ?thesis by simp
next
  case False
  from item_elements_frame[OF assms False]
  have d: "distinct cols" and l: "\<And>row. row \<in> snd ` set rs \<Longrightarrow> length cols \<le> length row"
    by auto
  from item_elements_ok[OF d l, of rs] assms show ?thesis by simp
qed

subsection \<open>The verifier's loops\<close>

lemma find_append_xml:
  "find P (xs @ ys) = (case find P xs of None \<Rightarrow> find P ys | Some x \<Rightarrow> Some x)"
  by (induction xs) auto

lemma find_Some_set: "find P xs = Some x \<Longrightarrow> x \<in> set xs \<and> P x"
  by (induction xs) (auto split: if_splits)

lemma list_getitem_position: "i < length xs \<Longrightarrow> list_getitem xs (int i) = Inr (xs ! i)"
  by (simp add: list_getitem_def)

lemma compare_columns_pairs:
  assumes "\<And>key v. (key, v) \<in> set kvs \<Longrightarrow> row_get cols row key = Inr v"
    and "i < length xml_data"
  shows "compare_columns cols row (IntLabel (int i)) xml_data (map fst kvs) =
           (case find (mismatch xml_data) (map (\<lambda>(key, v). (i, key, v)) kvs) of
              None \<Rightarrow> Inr None
            | Some (i', key, v) \<Rightarrow>
                Inr (Some (mismatch_message (int i') key v (dict_get (xml_data ! i') key))))"
  using assms(1)
proof (induction kvs)
  case Nil
  show ?case by simp
next
  case (Cons kv kvs)
  obtain key v where kv: "kv = (key, v)" by (cases kv)
  have g: "row_get cols row key = Inr v" using Cons.prems[of key v] kv by simp
  have ih: "compare_columns cols row (IntLabel (int i)) xml_data (map fst kvs) =
           (case find (mismatch xml_data) (map (\<lambda>(key, v). (i, key, v)) kvs) of
              None \<Rightarrow> Inr None
            | Some (i', key, v) \<Rightarrow>
                Inr (Some (mismatch_message (int i') key v (dict_get (xml_data ! i') key))))"
    using Cons.IH Cons.prems by simp
  show ?case using g ih list_getitem_position[OF assms(2)] unfolding kv
    by (simp add: mismatch_def)
qed

lemma compare_rows_find:
  assumes "distinct cols" "\<And>row. row \<in> set rs \<Longrightarrow> length cols \<le> length row"
    and "i0 + length rs \<le> length xml_data"
  shows "compare_rows cols xml_data (zip (map (\<lambda>p. IntLabel (int p)) [i0..<i0 + length rs]) rs) =
           (case find (mismatch xml_data) (row_major cols i0 rs) of
              None \<Rightarrow> Inr (True, ''All data has been accurately converted!'')
            | Some (i, key, v) \<Rightarrow>
                Inr (False, mismatch_message (int i) key v (dict_get (xml_data ! i) key)))"
  using assms(2,3)
proof (induction rs arbitrary: i0)
  case Nil
  show ?case by simp
next
  case (Cons row rest)
  have len: "length cols \<le> length row" using Cons.prems(1) by simp
  have cc: "compare_columns cols row (IntLabel (int i0)) xml_data cols =
           (case find (mismatch xml_data) (map (\<lambda>(key, v). (i0, key, v)) (zip cols row)) of
              None \<Rightarrow> Inr None
            | Some (i', key, v) \<Rightarrow>
                Inr (Some (mismatch_message (int i') key v (dict_get (xml_data ! i') key))))"
    using compare_columns_pairs[of "zip cols row" cols row i0 xml_data]
      row_get_zip[OF assms(1)] len Cons.prems(2) by (simp add: map_fst_zip_take)
  have ih: "compare_rows cols xml_data
              (zip (map (\<lambda>p. IntLabel (int p)) [Suc i0..<Suc i0 + length rest]) rest) =
           (case find (mismatch xml_data) (row_major cols (Suc i0) rest) of
              None \<Rightarrow> Inr (True, ''All data has been accurately converted!'')
            | Some (i, key, v) \<Rightarrow>
                Inr (False, mismatch_message (int i) key v (dict_get (xml_data ! i) key)))"
    using Cons.IH[of "Suc i0"] Cons.prems by simp
  have z: "zip (map (\<lambda>p. IntLabel (int p)) [i0..<i0 + length (row # rest)]) (row # rest) =
      (IntLabel (int i0), row) #
      zip (map (\<lambda>p. IntLabel (int p)) [Suc i0..<Suc i0 + length rest]) rest"
  proof -
    have "[i0..<i0 + length (row # rest)] = i0 # [Suc i0..<Suc i0 + length rest]"
      by (simp add: upt_conv_Cons del: upt_Suc)
    then show ?thesis by (simp del: upt_Suc)
  qed
  show ?case unfolding z compare_rows.simps row_major.simps find_append_xml cc ih
    by (simp split: option.splits)
qed

lemma default_index_rows:
  assumes "default_index df"
  shows "rows df = zip (map (\<lambda>p. IntLabel (int p)) [0..<0 + length (map snd (rows df))])
                       (map snd (rows df))"
proof -
  have "rows df = zip (map fst (rows df)) (map snd (rows df))" by (simp add: zip_map_fst_snd)
  with assms show ?thesis by (simp add: default_index_def)
qed

lemma set_row_major:
  "set (row_major cols i0 rs) =
     {(i0 + n, key, v) | n key v. n < length rs \<and> (key, v) \<in> set (zip cols (rs ! n))}"
proof (induction rs arbitrary: i0)
  case Nil
  show ?case by simp
next
  case (Cons row rest)
  show ?case
  proof (intro set_eqI iffI)
    fix x assume "x \<in> set (row_major cols i0 (row # rest))"
    then consider "x \<in> (\<lambda>(key, v). (i0, key, v)) ` set (zip cols row)"
      | "x \<in> set (row_major cols (Suc i0) rest)" by auto
    then show "x \<in> {(i0 + n, key, v) | n key v. n < length (row # rest) \<and>
                  (key, v) \<in> set (zip cols ((row # rest) ! n))}"
    proof cases
      case 1
      then obtain key v where "x = (i0, key, v)" "(key, v) \<in> set (zip cols row)" by auto
      then show ?thesis by (intro CollectI exI[of _ 0] exI[of _ key] exI[of _ v]) simp
    next
      case 2
      then obtain n key v where "x = (Suc i0 + n, key, v)" "n < length rest"
        "(key, v) \<in> set (zip cols (rest ! n))" unfolding Cons.IH by blast
      then show ?thesis by (intro CollectI exI[of _ "Suc n"] exI[of _ key] exI[of _ v]) simp
    qed
  next
    fix x assume "x \<in> {(i0 + n, key, v) | n key v. n < length (row # rest) \<and>
                  (key, v) \<in> set (zip cols ((row # rest) ! n))}"
    then obtain n key v where x: "x = (i0 + n, key, v)" "n < length (row # rest)"
      "(key, v) \<in> set (zip cols ((row # rest) ! n))" by blast
    show "x \<in> set (row_major cols i0 (row # rest))"
    proof (cases n)
      case 0
      with x show ?thesis by force
    next
      case (Suc m)
      with x have "x \<in> set (row_major cols (Suc i0) rest)"
        unfolding Cons.IH by (intro CollectI exI[of _ m] exI[of _ key] exI[of _ v]) simp
      then show ?thesis by simp
    qed
  qed
qed

subsection \<open>The dictionary of a row node\<close>

lemma fold_update_other:
  "key \<notin> fst ` set kts \<Longrightarrow>
   fold (\<lambda>child d. d(tag child \<mapsto> elem_text child)) (map (\<lambda>(k, t). Element k t []) kts) m key = m key"
proof (induction kts arbitrary: m)
  case Nil
  show ?case by simp
next
  case (Cons kt kts)
  obtain k' t' where kt: "kt = (k', t')" by (cases kt)
  from Cons.prems kt have "key \<noteq> k'" "key \<notin> fst ` set kts" by auto
  with Cons.IH[OF this(2), of "m(k' \<mapsto> t')"] kt show ?case
    by (simp del: fun_upd_apply) simp
qed

lemma fold_update_found:
  "distinct (map fst kts) \<Longrightarrow> (key, t) \<in> set kts \<Longrightarrow>
   fold (\<lambda>child d. d(tag child \<mapsto> elem_text child)) (map (\<lambda>(k, t). Element k t []) kts) m key = Some t"
proof (induction kts arbitrary: m)
  case Nil
  then show ?case by simp
next
  case (Cons kt kts)
  obtain k' t' where kt: "kt = (k', t')" by (cases kt)
  show ?case
  proof (cases "(key, t) = kt")
    case True
    then have "key \<notin> fst ` set kts" using Cons.prems(1) kt by auto
    from fold_update_other[OF this, of "m(k' \<mapsto> t')"] True kt show ?thesis
      by (simp del: fun_upd_apply) simp
  next
    case False
    with Cons.prems have "(key, t) \<in> set kts" "distinct (map fst kts)" by auto
    from Cons.IH[OF this(2,1), of "m(k' \<mapsto> t')"] kt show ?thesis
      by (simp del: fun_upd_apply)
  qed
qed

subsection \<open>The tree of the conversion\<close>

lemma clean_column_name_word: "list_all re_word (clean_column_name c)"
  using re_sub_nonword_chars[of _ "''_''" c]
  by (auto simp: list_all_iff clean_column_name_def re_word_def)

lemma xml_name_Root_Item: "xml_name ''Root''" "xml_name ''Item''"
  by (simp_all add: xml_name_def name_char_def name_start_char_def)

lemma item_word_tags: "word_tags (item_of (map clean_column_name cs) row)"
proof -
  have "\<And>kv. kv \<in> set (zip (map clean_column_name cs) row) \<Longrightarrow> word_tags (leaf_of kv)"
  proof -
    fix kv assume a: "kv \<in> set (zip (map clean_column_name cs) row)"
    obtain k v where kv: "kv = (k, v)" by (cases kv)
    with a have "k \<in> set (map clean_column_name cs)" by (metis set_zip_leftD)
    then show "word_tags (leaf_of kv)" using clean_column_name_word kv
      by (auto simp: leaf_of_def)
  qed
  then have "list_all word_tags (map leaf_of (zip (map clean_column_name cs) row))"
    by (simp add: list_all_iff)
  then show ?thesis by (simp add: item_of_def re_word_def py_isalnum_def)
qed

lemma root_word_tags:
  "word_tags (Element ''Root'' None (map (item_of (map clean_column_name cs)) rs))"
proof -
  have "list_all word_tags (map (item_of (map clean_column_name cs)) rs)"
    by (simp add: list_all_iff item_word_tags)
  then show ?thesis by (simp add: re_word_def py_isalnum_def)
qed

lemma root_simple_tree: "simple_tree (Element ''Root'' None (map (item_of cols) rs))"
  by (auto simp: list_all_iff item_of_def leaf_of_def)

lemma applymap_frame:
  "columns (applymap f df) = columns df"
  "map fst (rows (applymap f df)) = map fst (rows df)"
  "map snd (rows (applymap clean_data df)) = map (map converted) (map snd (rows df))"
  by (simp_all add: applymap_def converted_def comp_def split_beta)

lemma convert_unfold:
  "convert_df_to_pretty_xml df =
     (case item_elements (map clean_column_name (columns df))
             (rows (applymap clean_data (df\<lparr>columns := map clean_column_name (columns df)\<rparr>))) of
        (log, Inl e) \<Rightarrow> (df\<lparr>columns := map clean_column_name (columns df)\<rparr>, log, Inl e)
      | (log, Inr items) \<Rightarrow>
          (case minidom_parseString (ET_tostring (Element ''Root'' None items)) of
             Inl e \<Rightarrow>
               (df\<lparr>columns := map clean_column_name (columns df)\<rparr>,
                log @ [St_error_format e,
                       St_write ''Problem detected with the following raw XML snippet:'',
                       St_write (take 500 (ET_tostring (Element ''Root'' None items)))],
                Inl e)
           | Inr doc \<Rightarrow>
               (df\<lparr>columns := map clean_column_name (columns df)\<rparr>, log,
                Inr (toprettyxml doc ''  ''))))"
  by (simp add: convert_df_to_pretty_xml_def Let_def applymap_frame(1))

lemma convert_success:
  assumes "convert_df_to_pretty_xml df = (df', log, Inr xml_file)"
  shows "df' = df\<lparr>columns := map clean_column_name (columns df)\<rparr>"
    and "log = []"
    and "valid_tree (Element ''Root'' None
           (map (item_of (map clean_column_name (columns df))) (map (map converted) (map snd (rows df)))))"
    and "ET_parse xml_file = Inr (pretty_tree [] (Element ''Root'' None
           (map (item_of (map clean_column_name (columns df))) (map (map converted) (map snd (rows df))))))"
    and "rows df = [] \<or> (distinct (map clean_column_name (columns df)) \<and>
           (\<forall>row \<in> snd ` set (rows df). length (columns df) \<le> length row))"
proof -
  let ?cols = "map clean_column_name (columns df)"
  let ?df1 = "df\<lparr>columns := ?cols\<rparr>"
  let ?lrows = "rows (applymap clean_data ?df1)"
  let ?rows = "map (map converted) (map snd (rows df))"
  let ?root = "Element ''Root'' None (map (item_of ?cols) ?rows)"
  have sr: "map snd ?lrows = ?rows" using applymap_frame(3)[of ?df1] by simp
  obtain l0 r0 where ie: "item_elements ?cols ?lrows = (l0, r0)" by (cases "item_elements ?cols ?lrows")
  from assms ie obtain items where r0: "r0 = Inr items"
    by (cases r0) (auto simp: convert_unfold)
  from item_elements_Inr[OF ie[unfolded r0]] have l0: "l0 = []" and items: "items = map (item_of ?cols) ?rows"
    unfolding sr by auto
  note mp = minidom_parse_tostring[OF root_word_tags[of "columns df" ?rows]]
  have c: "convert_df_to_pretty_xml df =
      (case minidom_parseString (ET_tostring ?root) of
         Inl e \<Rightarrow> (df\<lparr>columns := ?cols\<rparr>,
                   [St_error_format e,
                    St_write ''Problem detected with the following raw XML snippet:'',
                    St_write (take 500 (ET_tostring ?root))], Inl e)
       | Inr doc \<Rightarrow> (df\<lparr>columns := ?cols\<rparr>, [], Inr (toprettyxml doc ''  '')))"
    unfolding convert_unfold ie r0 l0 items by (simp split: sum.split)
  show v: "valid_tree ?root"
  proof (rule ccontr)
    assume "\<not> valid_tree ?root"
    with mp have "minidom_parseString (ET_tostring ?root) = Inl ExpatError" by simp
    with c assms show False by simp
  qed
  with mp have p: "minidom_parseString (ET_tostring ?root) = Inr [dom_of ?root]" by simp
  from c p assms show "df' = df\<lparr>columns := map clean_column_name (columns df)\<rparr>" "log = []"
    by simp_all
  from c p assms have x: "xml_file = toprettyxml [dom_of ?root] ''  ''" by simp
  show "ET_parse xml_file = Inr (pretty_tree [] ?root)"
    unfolding x by (rule ET_parse_pretty[OF root_word_tags v root_simple_tree])
  show "rows df = [] \<or> (distinct ?cols \<and> (\<forall>row \<in> snd ` set (rows df). length (columns df) \<le> length row))"
  proof (cases "rows df = []")
    case True
    then show ?thesis by simp
  next
    case False
    then have ne: "?lrows \<noteq> []" by (simp add: applymap_def)
    from item_elements_frame[OF ie[unfolded r0] ne]
    have d: "distinct ?cols" and l: "\<forall>row \<in> snd ` set ?lrows. length ?cols \<le> length row" by auto
    have "snd ` set ?lrows = set ?rows" using sr by (metis set_map)
    with l have "\<forall>row \<in> snd ` set (rows df). length (columns df) \<le> length row" by auto
    with d show ?thesis by simp
  qed
qed

subsection \<open>What the verifier reads back\<close>

lemma pretty_leaf:
  "pretty_tree ind (leaf_of (k, converted v)) = Element k (recovered_text v) []"
  by (simp add: leaf_of_def recovered_text_def Let_def)

lemma zip_clean:
  "zip cols (map converted row) = map (\<lambda>(k, v). (k, converted v)) (zip cols row)"
  by (simp add: zip_map2)

lemma pretty_item:
  "pretty_tree ind (item_of cols (map converted row)) =
     Element ''Item'' (if zip cols row = [] then None else Some (CHR 0x0A # ind @ ''  ''))
       (map (\<lambda>(k, v). Element k (recovered_text v) []) (zip cols row))"
  unfolding item_of_def zip_clean
  by (auto simp: pretty_leaf comp_def split_beta leaf_of_def recovered_text_def Let_def)

lemma xml_row_pretty_item:
  assumes "distinct cols" "(k, v) \<in> set (zip cols row)"
  shows "dict_get (xml_row (pretty_tree ind (item_of cols (map converted row)))) k = recovered_text v"
proof -
  let ?kts = "map (\<lambda>(k, v). (k, recovered_text v)) (zip cols row)"
  have m: "map (\<lambda>(k, v). Element k (recovered_text v) []) (zip cols row) =
      map (\<lambda>(k, t). Element k t []) ?kts"
    by (simp add: comp_def split_beta)
  have "map fst ?kts = map fst (zip cols row)" by (simp add: comp_def split_beta)
  then have d: "distinct (map fst ?kts)"
    using assms(1) by (simp add: distinct_take map_fst_zip_take)
  have i: "(k, recovered_text v) \<in> set ?kts" using assms(2) by force
  show ?thesis
    unfolding pretty_item xml_row_def element.sel m
    using fold_update_found[OF d i, of Map.empty] by (simp add: dict_get_def)
qed

subsection \<open>The verifier on the document of the conversion\<close>

lemma pretty_root:
  "pretty_tree [] (Element ''Root'' None (map (item_of cols) (map (map converted) rs))) =
     Element ''Root'' (if rs = [] then None else Some (CHR 0x0A # ''  ''))
       (map (\<lambda>row. pretty_tree ''  '' (item_of cols (map converted row))) rs)"
  by (simp add: comp_def)

lemma findall_items:
  "findall ''Item'' (Element tg tx (map (\<lambda>row. pretty_tree ind (item_of cols (map converted row))) rs)) =
     map (\<lambda>row. pretty_tree ind (item_of cols (map converted row))) rs"
  by (simp add: findall_def pretty_item filter_map comp_def)

lemma parsed_document:
  assumes "convert_df_to_pretty_xml df = (df', log, Inr xml_file)"
  shows "ET_parse xml_file =
     Inr (Element ''Root'' (if rows df = [] then None else Some (CHR 0x0A # ''  ''))
       (map (\<lambda>row. pretty_tree ''  '' (item_of (map clean_column_name (columns df)) (map converted row)))
          (map snd (rows df))))"
  using convert_success(4)[OF assms] unfolding pretty_root by simp

lemma roundtrip_result:
  assumes "convert_df_to_pretty_xml df = (df', log, Inr xml_file)"
    and "default_index df"
  shows "test_conversion_accuracy df' xml_file =
     (case find (\<lambda>(i, key, v). Some (py_str v) \<noteq> recovered_text v)
             (row_major (map clean_column_name (columns df)) 0 (map snd (rows df))) of
        None \<Rightarrow> Inr (True, ''All data has been accurately converted!'')
      | Some (i, key, v) \<Rightarrow> Inr (False, mismatch_message (int i) key v (recovered_text v)))"
proof -
  let ?cols = "map clean_column_name (columns df)"
  let ?rs = "map snd (rows df)"
  let ?item = "\<lambda>row. pretty_tree ''  '' (item_of ?cols (map converted row))"
  let ?xml_data = "map xml_row (map ?item ?rs)"
  let ?cells = "row_major ?cols 0 ?rs"
  let ?Q = "\<lambda>(i, key, v). Some (py_str v) \<noteq> recovered_text v"
  have df': "columns df' = ?cols" "rows df' = rows df"
    using convert_success(1)[OF assms(1)] by simp_all
  have t: "test_conversion_accuracy df' xml_file = compare_rows ?cols ?xml_data (rows df)"
    unfolding test_conversion_accuracy_def parsed_document[OF assms(1)] df'
    by (simp only: sum.case findall_items)
  show ?thesis
  proof (cases "rows df = []")
    case True
    then show ?thesis unfolding t by simp
  next
    case False
    with convert_success(5)[OF assms(1)] have d: "distinct ?cols"
      and len: "\<And>row. row \<in> set ?rs \<Longrightarrow> length ?cols \<le> length row" by auto
    have cells: "\<And>i key v. (i, key, v) \<in> set ?cells \<Longrightarrow>
        dict_get (?xml_data ! i) key = recovered_text v"
    proof -
      fix i key v assume "(i, key, v) \<in> set ?cells"
      then have i: "i < length ?rs" and kv: "(key, v) \<in> set (zip ?cols (?rs ! i))"
        unfolding set_row_major by auto
      from i have "?xml_data ! i = xml_row (?item (?rs ! i))" by simp
      then show "dict_get (?xml_data ! i) key = recovered_text v"
        using xml_row_pretty_item[OF d kv] by simp
    qed
    have f: "find (mismatch ?xml_data) ?cells = find ?Q ?cells"
      using cells by (intro find_cong) (auto simp: mismatch_def)
    have n: "0 + length ?rs \<le> length ?xml_data" by simp
    have c: "compare_rows ?cols ?xml_data (rows df) =
           (case find ?Q ?cells of
              None \<Rightarrow> Inr (True, ''All data has been accurately converted!'')
            | Some (i, key, v) \<Rightarrow>
                Inr (False, mismatch_message (int i) key v (dict_get (?xml_data ! i) key)))"
    proof -
      have "compare_rows ?cols ?xml_data (rows df) =
          compare_rows ?cols ?xml_data
            (zip (map (\<lambda>p. IntLabel (int p)) [0..<0 + length ?rs]) ?rs)"
        by (rule arg_cong[where f = "compare_rows ?cols ?xml_data", OF default_index_rows[OF assms(2)]])
      also note compare_rows_find[OF d len n]
      finally show ?thesis unfolding f .
    qed
    show ?thesis
    proof (cases "find ?Q ?cells")
      case None
      then show ?thesis unfolding t c by simp
    next
      case (Some x)
      obtain i key v where x: "x = (i, key, v)" by (cases x)
      from find_Some_set[OF Some] have "x \<in> set ?cells" by simp
      from cells[OF this[unfolded x]] Some x show ?thesis unfolding t c by simp
    qed
  qed
qed


subsection \<open>The outcome of the conversion\<close>

lemma convert_frame:
  "fst (convert_df_to_pretty_xml df) = df\<lparr>columns := map clean_column_name (columns df)\<rparr>"
  by (simp add: convert_unfold split: prod.splits sum.splits)

lemma convert_ok:
  assumes "rows df = [] \<or> (distinct (map clean_column_name (columns df)) \<and>
             (\<forall>row \<in> snd ` set (rows df). length (columns df) \<le> length row))"
    and "valid_tree (Element ''Root'' None
           (map (item_of (map clean_column_name (columns df))) (map (map converted) (map snd (rows df)))))"
  shows "convert_df_to_pretty_xml df =
     (df\<lparr>columns := map clean_column_name (columns df)\<rparr>, [],
      Inr (toprettyxml [dom_of (Element ''Root'' None
        (map (item_of (map clean_column_name (columns df))) (map (map converted) (map snd (rows df)))))] ''  ''))"
proof -
  let ?cols = "map clean_column_name (columns df)"
  let ?lrows = "rows (applymap clean_data (df\<lparr>columns := ?cols\<rparr>))"
  let ?rows = "map (map converted) (map snd (rows df))"
  have sr: "map snd ?lrows = ?rows" using applymap_frame(3)[of "df\<lparr>columns := ?cols\<rparr>"] by simp
  have ie: "item_elements ?cols ?lrows = ([], Inr (map (item_of ?cols) ?rows))"
  proof (cases "rows df = []")
    case True
    then show ?thesis by (simp add: applymap_def)
  next
    case False
    with assms(1) have d: "distinct ?cols"
      and l: "\<forall>row \<in> snd ` set (rows df). length (columns df) \<le> length row" by auto
    have "snd ` set ?lrows = set ?rows" using sr by (metis set_map)
    with l have l': "\<And>row. row \<in> snd ` set ?lrows \<Longrightarrow> length ?cols \<le> length row" by auto
    have "item_elements ?cols ?lrows = ([], Inr (map (item_of ?cols) (map snd ?lrows)))"
      by (rule item_elements_ok[OF d l'])
    then show ?thesis unfolding sr .
  qed
  show ?thesis
    unfolding convert_unfold ie
    using minidom_parse_tostring[OF root_word_tags[of "columns df" ?rows]] assms(2)
    by simp
qed






subsection \<open>The first mismatch\<close>





text \<open>
  C3, as the claim states it, fails: \<^verbatim>\<open>\W\<close> does not match the underscore, so in
  \<^verbatim>\<open>a_ b\<close> only the blank is replaced and the run \<^verbatim>\<open>_ \<close> of two adjacent
  non-alphanumeric characters yields two underscores, where the specification's rule
  yields one.
\<close>

theorem C3_underscore_run_counterexample:
  "clean_column_name ''a_ b'' = ''a__b'' \<and> spec_sanitized_name ''a_ b'' = ''a_b''"
  by (simp add: clean_column_name_def re_word_def py_isalnum_def)

text \<open>
  C3, amended: \<open>clean_column_name\<close> replaces every maximal run of characters that are
  neither alphanumeric nor the underscore by a single underscore and copies every other
  character. Stated without reference to the scanning order: the result contains only
  alphanumeric characters and underscores; a name made of such characters only is
  returned as it is; and where the name is \<open>u @ r @ v\<close> with \<open>r\<close> a maximal run (non-empty,
  of characters outside \<^verbatim>\<open>\w\<close>, with a \<^verbatim>\<open>\w\<close> character or the end of the name on
  either side), the result is the sanitized \<open>u\<close>, one underscore, and the sanitized \<open>v\<close>.
\<close>

theorem C3_clean_column_name_runs:
  "(\<forall>c \<in> set (clean_column_name name). py_isalnum c \<or> c = CHR ''_'') \<and>
   (list_all re_word name \<longrightarrow> clean_column_name name = name) \<and>
   (r \<noteq> [] \<and> list_all (\<lambda>x. \<not> re_word x) r \<and> (u = [] \<or> re_word (last u)) \<and>
    (v = [] \<or> re_word (hd v)) \<longrightarrow>
      clean_column_name (u @ r @ v) = clean_column_name u @ ''_'' @ clean_column_name v)"
proof (intro conjI ballI impI)
  fix c assume "c \<in> set (clean_column_name name)"
  then show "py_isalnum c \<or> c = CHR ''_''"
    using re_sub_nonword_chars[of c "''_''" name]
    by (auto simp: clean_column_name_def re_word_def)
next
  assume "list_all re_word name"
  then show "clean_column_name name = name"
    by (simp add: clean_column_name_def re_sub_nonword_word_only)
next
  assume a: "r \<noteq> [] \<and> list_all (\<lambda>x. \<not> re_word x) r \<and> (u = [] \<or> re_word (last u)) \<and>
    (v = [] \<or> re_word (hd v))"
  then show "clean_column_name (u @ r @ v) = clean_column_name u @ ''_'' @ clean_column_name v"
    unfolding clean_column_name_def
    by (simp add: re_sub_nonword_append[of u] re_sub_nonword_run[of r v])
qed

theorem C3_clean_column_name_runs_witness:
  "list_all (\<lambda>c. py_isalnum c \<or> c = CHR ''_'') (clean_column_name ''a_ b'') \<and>
   list_all re_word ''a_b'' \<and> clean_column_name ''a_b'' = ''a_b'' \<and>
   '' -'' \<noteq> [] \<and> list_all (\<lambda>x. \<not> re_word x) '' -'' \<and> re_word (last ''a_'') \<and> re_word (hd ''b'') \<and>
   clean_column_name (''a_'' @ '' -'' @ ''b'') = clean_column_name ''a_'' @ ''_'' @ clean_column_name ''b''"
  using C3_clean_column_name_runs[of "''a_ b''" "'' -''" "''a_''" "''b''"]
        C3_clean_column_name_runs[of "''a_b''" "'' -''" "''a_''" "''b''"]
  by (simp add: re_word_def py_isalnum_def clean_column_name_def)

section \<open>The claims about the conversion and the verifier\<close>

text \<open>
  C1: the verifier takes the label that \<^verbatim>\<open>iterrows\<close> yields for a row as the position
  of the row node in \<^verbatim>\<open>xml_data\<close> (line 91). For the table with the single cell
  \<^verbatim>\<open>A & B\<close> whose row has the label 5 (as \<^verbatim>\<open>read_csv\<close> labels it for a file whose
  data line \<^verbatim>\<open>5,A & B\<close> has one field more than its header) the conversion returns a
  buffer with the cell escaped twice, and the verifier raises \<^verbatim>\<open>IndexError\<close> at
  \<^verbatim>\<open>xml_data[5]\<close> instead of reporting the mismatch. The same table with the label 0
  gives the mismatch report that the claim describes: \<^verbatim>\<open>A & B\<close> against
  \<^verbatim>\<open>A &amp;amp; B\<close>.
\<close>

theorem C1_label_taken_as_position:
  "convert_df_to_pretty_xml \<lparr>columns = [''a''], rows = [(IntLabel 5, [Str ''A & B''])]\<rparr> =
     (\<lparr>columns = [''a''], rows = [(IntLabel 5, [Str ''A & B''])]\<rparr>, [],
      Inr (xml_declaration @ [CHR 0x0A] @ ''<Root>'' @ [CHR 0x0A] @ ''  <Item>'' @ [CHR 0x0A] @
           ''    <a>A &amp;amp;amp; B</a>'' @ [CHR 0x0A] @ ''  </Item>'' @ [CHR 0x0A] @
           ''</Root>'' @ [CHR 0x0A])) \<and>
   convert_then_test \<lparr>columns = [''a''], rows = [(IntLabel 5, [Str ''A & B''])]\<rparr> =
     Inl IndexError \<and>
   convert_then_test \<lparr>columns = [''a''], rows = [(IntLabel 0, [Str ''A & B''])]\<rparr> =
     Inr (False, ''Mismatch found in record 1 for column '' @ [CHR 0x27] @ ''a'' @ [CHR 0x27] @
                 '': '' @ [CHR 0x27] @ ''A & B'' @ [CHR 0x27] @ '' != '' @
                 [CHR 0x27] @ ''A &amp;amp; B'' @ [CHR 0x27])"
  by code_simp

text \<open>
  C2, as the claim states it, fails: line 28 assigns the sanitized names to the columns
  of the frame it was passed, so after the call the column \<^verbatim>\<open>a b\<close> of the caller's
  table is named \<^verbatim>\<open>a_b\<close>.
\<close>

theorem C2_columns_renamed_counterexample:
  "fst (convert_df_to_pretty_xml \<lparr>columns = [''a b''], rows = [(IntLabel 0, [Str ''x''])]\<rparr>) =
     \<lparr>columns = [''a_b''], rows = [(IntLabel 0, [Str ''x''])]\<rparr> \<and>
   fst (convert_df_to_pretty_xml \<lparr>columns = [''a b''], rows = [(IntLabel 0, [Str ''x''])]\<rparr>) \<noteq>
     \<lparr>columns = [''a b''], rows = [(IntLabel 0, [Str ''x''])]\<rparr>"
  by (simp add: convert_frame clean_column_name_def re_word_def py_isalnum_def)

text \<open>
  C2, amended: the conversion leaves the rows of the table, their labels and cell
  values, as they were and replaces every column name by its sanitized form, whatever
  the outcome; a table whose column names consist of alphanumeric characters and
  underscores only is left unchanged.
\<close>

theorem C2_conversion_frame:
  "rows (fst (convert_df_to_pretty_xml df)) = rows df \<and>
   columns (fst (convert_df_to_pretty_xml df)) = map clean_column_name (columns df) \<and>
   (list_all (list_all re_word) (columns df) \<longrightarrow> fst (convert_df_to_pretty_xml df) = df)"
proof (intro conjI impI)
  assume "list_all (list_all re_word) (columns df)"
  then have "map clean_column_name (columns df) = columns df"
    by (induction "columns df" arbitrary: df)
       (auto simp: clean_column_name_def re_sub_nonword_word_only list_all_iff intro: map_idI)
  then show "fst (convert_df_to_pretty_xml df) = df" by (simp add: convert_frame)
qed (simp_all add: convert_frame)

theorem C2_conversion_frame_witness:
  "list_all (list_all re_word) (columns \<lparr>columns = [''a_b''], rows = [(IntLabel 0, [Str ''x''])]\<rparr>) \<and>
   fst (convert_df_to_pretty_xml \<lparr>columns = [''a_b''], rows = [(IntLabel 0, [Str ''x''])]\<rparr>) =
     \<lparr>columns = [''a_b''], rows = [(IntLabel 0, [Str ''x''])]\<rparr>"
  using C2_conversion_frame[of "\<lparr>columns = [''a_b''], rows = [(IntLabel 0, [Str ''x''])]\<rparr>"]
  by (simp add: re_word_def py_isalnum_def)









text \<open>
  C7: \<^verbatim>\<open>test_conversion_accuracy\<close> looks up the row node of a row and numbers the
  record in its report by the label that \<^verbatim>\<open>iterrows\<close> yields for the row (lines 89-94),
  not by the position of the row. For a table of two rows labelled 1 and 0, and the
  document with the row nodes of these rows in table order, the first row \<^verbatim>\<open>x\<close> is
  compared with the second row node \<^verbatim>\<open>y\<close> and reported as a mismatch in record 2,
  although the document holds every cell of the table at its place. A single row with
  the label 5 raises \<^verbatim>\<open>IndexError\<close>, and one with a label that is not an integer
  raises \<^verbatim>\<open>TypeError\<close>. With the labels 0 and 1 the verifier does what the claim says:
  it reports success on that document, and the first mismatch in row-major order with
  its 1-based row number on a document that differs in the second row.
\<close>

theorem C7_label_taken_as_position:
  "test_conversion_accuracy
     \<lparr>columns = [''a''], rows = [(IntLabel 1, [Str ''x'']), (IntLabel 0, [Str ''y''])]\<rparr>
     ''<Root><Item><a>x</a></Item><Item><a>y</a></Item></Root>'' =
     Inr (False, ''Mismatch found in record 2 for column '' @ [CHR 0x27] @ ''a'' @ [CHR 0x27] @
                 '': '' @ [CHR 0x27] @ ''x'' @ [CHR 0x27] @ '' != '' @ [CHR 0x27] @ ''y'' @ [CHR 0x27]) \<and>
   test_conversion_accuracy \<lparr>columns = [''a''], rows = [(IntLabel 5, [Str ''x''])]\<rparr>
     ''<Root><Item><a>x</a></Item></Root>'' = Inl IndexError \<and>
   test_conversion_accuracy \<lparr>columns = [''a''], rows = [(OtherLabel ''r1'', [Str ''x''])]\<rparr>
     ''<Root><Item><a>x</a></Item></Root>'' = Inl TypeError \<and>
   test_conversion_accuracy
     \<lparr>columns = [''a''], rows = [(IntLabel 0, [Str ''x'']), (IntLabel 1, [Str ''y''])]\<rparr>
     ''<Root><Item><a>x</a></Item><Item><a>y</a></Item></Root>'' =
     Inr (True, ''All data has been accurately converted!'') \<and>
   test_conversion_accuracy
     \<lparr>columns = [''a'', ''b''],
      rows = [(IntLabel 0, [Str ''x'', Other ''1'' ''1'']), (IntLabel 1, [Str ''y'', Other ''2'' ''2''])]\<rparr>
     ''<Root><Item><a>x</a><b>1</b></Item><Item><a>z</a><b/></Item></Root>'' =
     Inr (False, ''Mismatch found in record 2 for column '' @ [CHR 0x27] @ ''a'' @ [CHR 0x27] @
                 '': '' @ [CHR 0x27] @ ''y'' @ [CHR 0x27] @ '' != '' @ [CHR 0x27] @ ''z'' @ [CHR 0x27])"
  by code_simp



text \<open>
  C9: for every table with zero rows (whatever its columns, so also with a nonzero
  number of them) the conversion returns a document whose root node \<^verbatim>\<open>Root\<close> has no
  children, and the verifier on that document reports success.
\<close>

theorem C9_empty_table:
  assumes "rows df = []"
  shows "convert_df_to_pretty_xml df =
           (df\<lparr>columns := map clean_column_name (columns df)\<rparr>, [],
            Inr (xml_declaration @ [CHR 0x0A] @ ''<Root/>'' @ [CHR 0x0A])) \<and>
         ET_parse (xml_declaration @ [CHR 0x0A] @ ''<Root/>'' @ [CHR 0x0A]) =
           Inr (Element ''Root'' None []) \<and>
         test_conversion_accuracy (df\<lparr>columns := map clean_column_name (columns df)\<rparr>)
           (xml_declaration @ [CHR 0x0A] @ ''<Root/>'' @ [CHR 0x0A]) =
           Inr (True, ''All data has been accurately converted!'')"
proof -
  have v: "valid_tree (Element ''Root'' None
           (map (item_of (map clean_column_name (columns df))) (map (map converted) (map snd (rows df)))))"
    using assms by (simp add: xml_name_Root_Item)
  have c: "convert_df_to_pretty_xml df =
           (df\<lparr>columns := map clean_column_name (columns df)\<rparr>, [],
            Inr (xml_declaration @ [CHR 0x0A] @ ''<Root/>'' @ [CHR 0x0A]))"
    using convert_ok[OF _ v] assms by (simp add: toprettyxml_def)
  have p: "ET_parse (xml_declaration @ [CHR 0x0A] @ ''<Root/>'' @ [CHR 0x0A]) =
           Inr (Element ''Root'' None [])"
    using parsed_document[OF c] assms by simp
  have t: "test_conversion_accuracy (df\<lparr>columns := map clean_column_name (columns df)\<rparr>)
           (xml_declaration @ [CHR 0x0A] @ ''<Root/>'' @ [CHR 0x0A]) =
           Inr (True, ''All data has been accurately converted!'')"
  proof -
    have d: "default_index df" using assms by (simp add: default_index_def)
    show ?thesis using roundtrip_result[OF c d] assms by simp
  qed
  from c p t show ?thesis by simp
qed

theorem C9_empty_table_witness:
  "rows \<lparr>columns = [''first name'', ''age''], rows = []\<rparr> = [] \<and>
   convert_df_to_pretty_xml \<lparr>columns = [''first name'', ''age''], rows = []\<rparr> =
     (\<lparr>columns = [''first_name'', ''age''], rows = []\<rparr>, [],
      Inr (xml_declaration @ [CHR 0x0A] @ ''<Root/>'' @ [CHR 0x0A])) \<and>
   ET_parse (xml_declaration @ [CHR 0x0A] @ ''<Root/>'' @ [CHR 0x0A]) =
     Inr (Element ''Root'' None []) \<and>
   test_conversion_accuracy \<lparr>columns = [''first_name'', ''age''], rows = []\<rparr>
     (xml_declaration @ [CHR 0x0A] @ ''<Root/>'' @ [CHR 0x0A]) =
     Inr (True, ''All data has been accurately converted!'')"
proof -
  have c: "map clean_column_name [''first name'', ''age''] = [''first_name'', ''age'']"
    by code_simp
  from C9_empty_table[of "\<lparr>columns = [''first name'', ''age''], rows = []\<rparr>"] c
  show ?thesis by simp
qed




end
